theory Spec2Isabelle
  imports Main "HOL-Library.Char_ord" "HOL-Library.List_Lexorder" "HOL-Library.Multiset"
begin

section \<open>Settings, items and the path predicates\<close>

text \<open>
  A compiled regular expression (\<^verbatim>\<open>re.Pattern\<close>) is used by the code only through
  \<^verbatim>\<open>pattern.search(s)\<close>, whose result is tested for truth. A pattern is therefore
  modelled by the predicate that tells whether \<^verbatim>\<open>search\<close> finds a match.
\<close>

datatype pattern = Pattern (search: "string \<Rightarrow> bool")

text \<open>The fields of \<^verbatim>\<open>Settings\<close> read by the commit worker.\<close>

record settings =
  autoindex_filename :: string
  entry_point_files :: "string list"
  phase2_patterns :: "pattern list"
  item_yield_size :: int
  write_max_workers :: int
  write_queue_size :: int
  cdn_flush_on_commit :: bool

text \<open>A row of the \<^verbatim>\<open>items\<close> table.\<close>

record item =
  item_id :: string
  publish_id :: string
  web_uri :: string
  object_key :: "string option"
  dirty :: bool

text \<open>
  \<^verbatim>\<open>os.path.basename(p)\<close> on POSIX is \<^verbatim>\<open>p[p.rfind('/') + 1:]\<close>: what follows the
  last slash, the whole string when there is none.
\<close>

definition basename :: "string \<Rightarrow> string" where
  "basename p = rev (takeWhile (\<lambda>c. c \<noteq> CHR ''/'') (rev p))"

text \<open>\<^verbatim>\<open>os.path.dirname(p)\<close> on POSIX: the head up to the last slash, with trailing
  slashes removed unless the head consists of slashes only.\<close>

definition dirname :: "string \<Rightarrow> string" where
  "dirname p =
     (let head = rev (dropWhile (\<lambda>c. c \<noteq> CHR ''/'') (rev p))
      in if head \<noteq> [] \<and> head \<noteq> replicate (length head) (CHR ''/'')
         then rev (dropWhile (\<lambda>c. c = CHR ''/'') (rev head))
         else head)"

text \<open>The loop over \<^verbatim>\<open>settings.phase2_patterns\<close> of \<^verbatim>\<open>is_phase2\<close>.\<close>

fun any_pattern_matches :: "pattern list \<Rightarrow> string \<Rightarrow> bool" where
  "any_pattern_matches [] uri = False"
| "any_pattern_matches (p # ps) uri =
     (if search p uri then True else any_pattern_matches ps uri)"

definition is_phase2 :: "settings \<Rightarrow> item \<Rightarrow> bool" where
  "is_phase2 st it =
     (let name = basename (web_uri it)
      in if name = autoindex_filename st \<or> name \<in> set (entry_point_files st)
         then True
         else any_pattern_matches (phase2_patterns st) (web_uri it))"

subsection \<open>Cache flush rules\<close>

record cache_flush_rule =
  rule_name :: string
  templates :: "string list"
  rule_includes :: "pattern list"
  rule_excludes :: "pattern list"

text \<open>\<^verbatim>\<open>str.removeprefix("/")\<close>: drops one leading slash when there is one.\<close>

fun removeprefix_slash :: "string \<Rightarrow> string" where
  "removeprefix_slash [] = []"
| "removeprefix_slash (c # cs) = (if c = CHR ''/'' then cs else c # cs)"

definition normalize_path :: "string \<Rightarrow> string" where
  "normalize_path path = CHR ''/'' # removeprefix_slash path"

text \<open>The \<^verbatim>\<open>for ... else\<close> loop over the includes: \<^verbatim>\<open>break\<close> at the first match,
  the \<^verbatim>\<open>else\<close> branch (return False) when the loop ends without one.\<close>

fun includes_loop :: "pattern list \<Rightarrow> string \<Rightarrow> bool" where
  "includes_loop [] path = False"
| "includes_loop (p # ps) path = (if search p path then True else includes_loop ps path)"

text \<open>The loop over the excludes: False as soon as one matches, True at its end.\<close>

fun excludes_loop :: "pattern list \<Rightarrow> string \<Rightarrow> bool" where
  "excludes_loop [] path = True"
| "excludes_loop (p # ps) path = (if search p path then False else excludes_loop ps path)"

definition matches :: "cache_flush_rule \<Rightarrow> string \<Rightarrow> bool" where
  "matches r path0 =
     (let path = normalize_path path0
      in if \<not> includes_loop (rule_includes r) path then False
         else excludes_loop (rule_excludes r) path)"

section \<open>Exceptions and the event log\<close>

text \<open>
  The exception classes the worker distinguishes. \<open>RuntimeError\<close> and \<open>ValueError\<close> stand
  for these classes and their subclasses, \<open>Empty\<close> and \<open>Full\<close> are the two exceptions of
  \<^verbatim>\<open>queue\<close>, \<open>KeyError\<close> and \<open>HTTPException\<close> are raised by the actor's set-up, and
  \<open>OtherError\<close> stands for every other subclass of \<^verbatim>\<open>Exception\<close>.
\<close>

datatype exc_class =
  RuntimeError | ValueError | Empty | Full | KeyError | HTTPException | OtherError

text \<open>An exception in flight is an instance of a class, with its message.\<close>

datatype exn = Exn (exn_class: exc_class) (exn_msg: string)

text \<open>
  Python objects as far as the identity test \<^verbatim>\<open>is\<close> of the worker loop needs them:
  an exception instance, or a class object. An instance is never the class object, and
  a class object is identical to itself only; the model compares nothing else.
\<close>

datatype pyobj = Instance exn | Class exc_class

definition py_is :: "pyobj \<Rightarrow> pyobj \<Rightarrow> bool" where
  "py_is a b = (a = b)"

text \<open>The outcome of a call: a value, or an exception.\<close>

datatype 'a res = Ok 'a | Raise exn

datatype TaskStates = Task_not_started | Task_in_progress | Task_complete | Task_failed

datatype PublishStates =
  Publish_pending | Publish_committing | Publish_committed | Publish_failed

text \<open>An entry of the writer's queue: a batch of items, or the sentinel object.\<close>

datatype entry = Batch "item list" | Sentinel

text \<open>
  What a run does, in order. The first argument of a writer's events is the
  \<^verbatim>\<open>message\<close> the \<^verbatim>\<open>_BatchWriter\<close> was built with, which tells the writers of one
  commit apart: \<open>Enter\<close> and \<open>Exit\<close> are \<^verbatim>\<open>__enter__\<close> and the end of \<^verbatim>\<open>__exit__\<close>
  (with the errors recorded by then), \<open>Put\<close> a successful \<^verbatim>\<open>queue.put\<close>, \<open>WriteIssued\<close>
  and \<open>WriteDone\<close> the call of \<^verbatim>\<open>write_batch\<close> on a batch (with the \<^verbatim>\<open>delete\<close> flag)
  and its end (with the exception raised, if any), \<open>Joined\<close> the end of the joins in
  \<^verbatim>\<open>stop\<close>. \<open>DBCommit\<close> is \<^verbatim>\<open>db.commit()\<close> with the task and publish states it makes
  durable, \<open>PreWrite\<close> the run of the autoindex enricher, \<open>Flush\<close> the run of the cache
  flusher on the given paths.
\<close>

datatype event =
    Enter string
  | Put string entry
  | WriteIssued string "item list" bool
  | WriteDone string "item list" bool "exn option"
  | Joined string
  | Exit string "exn list"
  | DBCommit TaskStates PublishStates
  | PreWrite
  | Flush "string list"

text \<open>
  The other threads of a writer act between the steps of the thread that owns it. An
  action is one step of worker \<open>i\<close>, or the expiry of the time-out of the
  \<^verbatim>\<open>queue.get\<close> worker \<open>i\<close> is blocked in. A schedule lists, for each point where the
  owning thread can be overtaken, the actions that happen there; every interleaving of the
  threads is the run under some schedule.
\<close>

datatype action = Step nat | Timeout nat

section \<open>The external collaborators\<close>

text \<open>
  What the commit calls and the sources do not hold, each a parameter:
  \<^item> \<open>write_batch n batch delete\<close> is \<^verbatim>\<open>DynamoDB.write_batch(batch, delete=delete)\<close>:
    \<open>None\<close> when it returns, \<open>Some err\<close> when it raises \<open>err\<close>. Its first argument is the
    length of the event log at the call, so that the outcome may differ from call to call.
  \<^item> \<open>get_batches\<close> is \<^verbatim>\<open>DynamoDB.get_batches\<close>.
  \<^item> \<open>partitions\<close> is \<^verbatim>\<open>Result.partitions()\<close> of SQLAlchemy with
    \<^verbatim>\<open>yield_per=item_yield_size\<close>, applied to the rows the statement selects.
  \<^item> \<open>enricher_run\<close> is \<^verbatim>\<open>AutoindexEnricher.run\<close>, given the rows of the \<^verbatim>\<open>items\<close> table:
    it raises, or returns the rows it inserts.
  \<^item> \<open>uris_with_aliases\<close> is the function of that name applied to the flush paths and
    \<^verbatim>\<open>dynamodb.aliases_for_flush\<close>.
  \<^item> \<open>utcnow\<close> is the time of \<^verbatim>\<open>datetime.utcnow()\<close> as a timestamp, \<open>environments\<close> the
    names of the environments of the configuration \<^verbatim>\<open>get_environment\<close> loads.

  The SQLAlchemy session and the cache flusher are taken to return: \<^verbatim>\<open>db.commit()\<close>, the
  queries and \<^verbatim>\<open>Flusher.run()\<close> appear as events and never raise.
\<close>

record env =
  write_batch :: "nat \<Rightarrow> item list \<Rightarrow> bool \<Rightarrow> exn option"
  get_batches :: "item list \<Rightarrow> item list list"
  partitions :: "item list \<Rightarrow> item list list"
  enricher_run :: "item list \<Rightarrow> item list res"
  uris_with_aliases :: "string list \<Rightarrow> string list"
  utcnow :: int
  environments :: "string list"

section \<open>The batch writer\<close>

text \<open>Where a worker thread stands in \<^verbatim>\<open>write_batches\<close>: at the loop test, blocked in
  \<^verbatim>\<open>queue.get\<close>, inside \<^verbatim>\<open>write_batch\<close> with the batch it took, or finished.\<close>

datatype wstate = AtLoopTest | InGet | InWrite "item list" | Finished

record batch_writer =
  bw_delete :: bool
  bw_message :: string
  bw_queue :: "entry list"
  bw_threads :: "wstate list"
  bw_errors :: "exn list"
  bw_items_total :: int
  bw_items_done :: int
  bw_log :: "event list"
  bw_sched :: "action list list"

definition BatchWriter_init ::
  "int \<Rightarrow> string \<Rightarrow> bool \<Rightarrow> event list \<Rightarrow> action list list \<Rightarrow> batch_writer" where
  "BatchWriter_init item_count message del lg sch =
     \<lparr>bw_delete = del, bw_message = message, bw_queue = [], bw_threads = [],
      bw_errors = [], bw_items_total = item_count, bw_items_done = 0,
      bw_log = lg, bw_sched = sch\<rparr>"

definition adjust_total :: "int \<Rightarrow> batch_writer \<Rightarrow> batch_writer" where
  "adjust_total increment bw = bw\<lparr>bw_items_total := bw_items_total bw + increment\<rparr>"

definition append_error :: "exn \<Rightarrow> batch_writer \<Rightarrow> batch_writer" where
  "append_error err bw = bw\<lparr>bw_errors := bw_errors bw @ [err]\<rparr>"

definition set_thread :: "nat \<Rightarrow> wstate \<Rightarrow> batch_writer \<Rightarrow> batch_writer" where
  "set_thread i w bw = bw\<lparr>bw_threads := (bw_threads bw)[i := w]\<rparr>"

definition emit :: "event \<Rightarrow> batch_writer \<Rightarrow> batch_writer" where
  "emit ev bw = bw\<lparr>bw_log := bw_log bw @ [ev]\<rparr>"

text \<open>\<^verbatim>\<open>start\<close>: one thread per element of \<^verbatim>\<open>range(write_max_workers)\<close>, none when
  the setting is zero or negative.\<close>

definition start :: "settings \<Rightarrow> batch_writer \<Rightarrow> batch_writer" where
  "start st bw =
     bw\<lparr>bw_threads := bw_threads bw @ replicate (nat (write_max_workers st)) AtLoopTest\<rparr>"

text \<open>The clause \<^verbatim>\<open>except (RuntimeError, ValueError, Empty)\<close>.\<close>

definition worker_catches :: "exn \<Rightarrow> bool" where
  "worker_catches err =
     (exn_class err = RuntimeError \<or> exn_class err = ValueError \<or> exn_class err = Empty)"

text \<open>
  An exception \<open>err\<close> reaches the \<^verbatim>\<open>try\<close> of the worker loop. When the clause catches
  it, the handler runs \<^verbatim>\<open>if err is not Empty: self.append_error(err)\<close> and breaks; here
  \<^verbatim>\<open>err\<close> is the instance caught and \<^verbatim>\<open>Empty\<close> the class. Any other exception leaves
  \<^verbatim>\<open>write_batches\<close> and ends the thread.
\<close>

definition worker_except :: "nat \<Rightarrow> exn \<Rightarrow> batch_writer \<Rightarrow> batch_writer" where
  "worker_except i err bw =
     (if worker_catches err
      then set_thread i Finished
             (if \<not> py_is (Instance err) (Class Empty) then append_error err bw else bw)
      else set_thread i Finished bw)"

text \<open>One step of worker \<open>i\<close> in \<^verbatim>\<open>write_batches\<close>.\<close>

definition worker_step :: "env \<Rightarrow> nat \<Rightarrow> batch_writer \<Rightarrow> batch_writer" where
  "worker_step e i bw =
     (if length (bw_threads bw) \<le> i then bw
      else case bw_threads bw ! i of
        Finished \<Rightarrow> bw
      | AtLoopTest \<Rightarrow>
          (if bw_errors bw = [] then set_thread i InGet bw else set_thread i Finished bw)
      | InGet \<Rightarrow>
          (case bw_queue bw of
             [] \<Rightarrow> bw
           | Sentinel # q \<Rightarrow> set_thread i Finished (bw\<lparr>bw_queue := q\<rparr>)
           | Batch got # q \<Rightarrow>
               emit (WriteIssued (bw_message bw) got (bw_delete bw))
                 (set_thread i (InWrite got) (bw\<lparr>bw_queue := q\<rparr>)))
      | InWrite got \<Rightarrow>
          (case write_batch e (length (bw_log bw)) got (bw_delete bw) of
             None \<Rightarrow>
               set_thread i AtLoopTest
                 ((emit (WriteDone (bw_message bw) got (bw_delete bw) None) bw)
                    \<lparr>bw_items_done := bw_items_done bw + int (length got)\<rparr>)
           | Some err \<Rightarrow>
               worker_except i err
                 (emit (WriteDone (bw_message bw) got (bw_delete bw) (Some err)) bw)))"

text \<open>The \<^verbatim>\<open>queue.get\<close> of worker \<open>i\<close> times out: it raises \<^verbatim>\<open>Empty\<close>. This can only
  happen while the worker is blocked on an empty queue.\<close>

definition worker_timeout :: "nat \<Rightarrow> batch_writer \<Rightarrow> batch_writer" where
  "worker_timeout i bw =
     (if i < length (bw_threads bw) \<and> bw_threads bw ! i = InGet \<and> bw_queue bw = []
      then worker_except i (Exn Empty []) bw
      else bw)"

fun do_action :: "env \<Rightarrow> action \<Rightarrow> batch_writer \<Rightarrow> batch_writer" where
  "do_action e (Step i) bw = worker_step e i bw"
| "do_action e (Timeout i) bw = worker_timeout i bw"

text \<open>A point where the owning thread can be overtaken: the workers run the next part of
  the schedule.\<close>

definition others_run :: "env \<Rightarrow> batch_writer \<Rightarrow> batch_writer" where
  "others_run e bw =
     (case bw_sched bw of
        [] \<Rightarrow> bw
      | acts # rest \<Rightarrow> fold (do_action e) acts (bw\<lparr>bw_sched := rest\<rparr>))"

text \<open>\<^verbatim>\<open>Queue(maxsize)\<close> is bounded only when \<^verbatim>\<open>maxsize\<close> is positive.\<close>

definition queue_full :: "settings \<Rightarrow> batch_writer \<Rightarrow> bool" where
  "queue_full st bw =
     (0 < write_queue_size st \<and> write_queue_size st \<le> int (length (bw_queue bw)))"

text \<open>
  \<^verbatim>\<open>self.queue.put(x, timeout=...)\<close>: the workers run while the caller waits; the entry
  goes in when there is room, and \<^verbatim>\<open>Full\<close> is raised when the queue is still full at the
  end of the wait.
\<close>

definition queue_put :: "settings \<Rightarrow> env \<Rightarrow> entry \<Rightarrow> batch_writer \<Rightarrow> unit res \<times> batch_writer" where
  "queue_put st e x bw =
     (let bw1 = others_run e bw
      in if queue_full st bw1 then (Raise (Exn Full []), bw1)
         else (Ok (), emit (Put (bw_message bw1) x) (bw1\<lparr>bw_queue := bw_queue bw1 @ [x]\<rparr>)))"

text \<open>The loop of \<^verbatim>\<open>queue_batches\<close> over the batches, with the ids queued so far.\<close>

fun queue_batches_loop ::
  "settings \<Rightarrow> env \<Rightarrow> item list list \<Rightarrow> string list \<Rightarrow> batch_writer \<Rightarrow> string list \<times> batch_writer" where
  "queue_batches_loop st e [] queued bw = (queued, bw)"
| "queue_batches_loop st e (batch # rest) queued bw =
     (let bw0 = others_run e bw
      in if bw_errors bw0 = []
         then (case queue_put st e (Batch batch) bw0 of
                 (Ok u, bw1) \<Rightarrow> queue_batches_loop st e rest (queued @ map item_id batch) bw1
               | (Raise err, bw1) \<Rightarrow> queue_batches_loop st e rest queued (append_error err bw1))
         else queue_batches_loop st e rest queued bw0)"

definition queue_batches ::
  "settings \<Rightarrow> env \<Rightarrow> item list \<Rightarrow> batch_writer \<Rightarrow> string list \<times> batch_writer" where
  "queue_batches st e items bw = queue_batches_loop st e (get_batches e items) [] bw"

text \<open>The first loop of \<^verbatim>\<open>stop\<close>: one sentinel for each thread.\<close>

fun put_sentinels :: "settings \<Rightarrow> env \<Rightarrow> nat \<Rightarrow> batch_writer \<Rightarrow> batch_writer" where
  "put_sentinels st e 0 bw = bw"
| "put_sentinels st e (Suc n) bw =
     (case queue_put st e Sentinel bw of
        (Ok u, bw1) \<Rightarrow> put_sentinels st e n bw1
      | (Raise err, bw1) \<Rightarrow> put_sentinels st e n (append_error err bw1))"

text \<open>
  \<^verbatim>\<open>thread.join()\<close> returns when the thread has finished. While the owner waits nothing
  is put on the queue, so a worker blocked on the empty queue stays blocked until its
  \<^verbatim>\<open>get\<close> times out. \<open>run_worker\<close> lets worker \<open>i\<close> run until it has finished.
\<close>

definition wrank :: "wstate \<Rightarrow> nat" where
  "wrank w = (case w of Finished \<Rightarrow> 0 | InGet \<Rightarrow> 1 | AtLoopTest \<Rightarrow> 2 | InWrite b \<Rightarrow> 3)"

definition next_action :: "nat \<Rightarrow> batch_writer \<Rightarrow> action" where
  "next_action i bw =
     (if bw_threads bw ! i = InGet \<and> bw_queue bw = [] then Timeout i else Step i)"

function run_worker :: "env \<Rightarrow> nat \<Rightarrow> batch_writer \<Rightarrow> batch_writer" where
  "run_worker e i bw =
     (if i < length (bw_threads bw) \<and> bw_threads bw ! i \<noteq> Finished
      then run_worker e i (do_action e (next_action i bw) bw)
      else bw)"
  by pat_completeness auto
termination
proof (relation "measure (\<lambda>(e, i, bw). 4 * length (bw_queue bw) + wrank (bw_threads bw ! i))")
  show "wf (measure (\<lambda>(e, i, bw). 4 * length (bw_queue bw) + wrank (bw_threads bw ! i)))"
    by simp
next
  fix e :: env and i :: nat and bw :: batch_writer
  assume "i < length (bw_threads bw) \<and> bw_threads bw ! i \<noteq> Finished"
  then have a: "i < length (bw_threads bw)" "bw_threads bw ! i \<noteq> Finished"
    by simp_all
  have "4 * length (bw_queue (do_action e (next_action i bw) bw))
           + wrank (bw_threads (do_action e (next_action i bw) bw) ! i)
         < 4 * length (bw_queue bw) + wrank (bw_threads bw ! i)"
  proof (cases "bw_threads bw ! i")
    case AtLoopTest
    with a show ?thesis
      by (simp add: next_action_def worker_step_def set_thread_def wrank_def)
  next
    case InGet
    show ?thesis
    proof (cases "bw_queue bw")
      case Nil
      with a InGet show ?thesis
        by (simp add: next_action_def worker_timeout_def worker_except_def worker_catches_def
              py_is_def set_thread_def append_error_def wrank_def)
    next
      case (Cons x q)
      with a InGet show ?thesis
        by (cases x)
           (simp_all add: next_action_def worker_step_def set_thread_def emit_def wrank_def)
    qed
  next
    case (InWrite got)
    with a show ?thesis
      by (cases "write_batch e (length (bw_log bw)) got (bw_delete bw)")
         (simp_all add: next_action_def worker_step_def worker_except_def set_thread_def
            emit_def append_error_def wrank_def)
  next
    case Finished
    with a show ?thesis by simp
  qed
  then show "((e, i, do_action e (next_action i bw) bw), (e, i, bw))
        \<in> measure (\<lambda>(e, i, bw). 4 * length (bw_queue bw) + wrank (bw_threads bw ! i))"
    unfolding in_measure prod.case .
qed

declare run_worker.simps [simp del]

fun run_workers :: "env \<Rightarrow> nat list \<Rightarrow> batch_writer \<Rightarrow> batch_writer" where
  "run_workers e [] bw = bw"
| "run_workers e (i # is) bw = run_workers e is (run_worker e i bw)"

text \<open>The second loop of \<^verbatim>\<open>stop\<close>: the workers run as the schedule says, then the owner
  has waited for each of them.\<close>

definition join_threads :: "env \<Rightarrow> batch_writer \<Rightarrow> batch_writer" where
  "join_threads e bw =
     (let bw1 = others_run e bw;
          bw2 = run_workers e [0 ..< length (bw_threads bw1)] bw1
      in emit (Joined (bw_message bw2)) bw2)"

text \<open>The test of the queue after the join: \<^verbatim>\<open>get_nowait\<close> takes the first entry.\<close>

definition check_queue :: "batch_writer \<Rightarrow> batch_writer" where
  "check_queue bw =
     (case bw_queue bw of
        [] \<Rightarrow> bw
      | x # q \<Rightarrow>
          (if x \<noteq> Sentinel
           then append_error (Exn RuntimeError ''Commit incomplete, queue not empty'')
                  (bw\<lparr>bw_queue := q\<rparr>)
           else bw\<lparr>bw_queue := q\<rparr>))"

definition raise_first :: "batch_writer \<Rightarrow> unit res" where
  "raise_first bw = (case bw_errors bw of [] \<Rightarrow> Ok () | err # errs \<Rightarrow> Raise err)"

definition stop :: "settings \<Rightarrow> env \<Rightarrow> batch_writer \<Rightarrow> unit res \<times> batch_writer" where
  "stop st e bw =
     (let bw1 = put_sentinels st e (length (bw_threads bw)) bw;
          bw2 = join_threads e bw1;
          bw3 = check_queue bw2
      in (raise_first bw3, emit (Exit (bw_message bw3) (bw_errors bw3)) bw3))"

text \<open>\<^verbatim>\<open>__enter__\<close> of a writer just built.\<close>

definition enter ::
  "settings \<Rightarrow> int \<Rightarrow> string \<Rightarrow> bool \<Rightarrow> event list \<Rightarrow> action list list \<Rightarrow> batch_writer" where
  "enter st item_count message del lg sch =
     start st (emit (Enter message) (BatchWriter_init item_count message del lg sch))"

text \<open>
  \<^verbatim>\<open>__exit__\<close> after the body of the \<^verbatim>\<open>with\<close> statement gave \<open>r\<close>: \<^verbatim>\<open>stop\<close> runs in
  every case; what it raises replaces the outcome of the body, and when it returns, the
  outcome of the body stands.
\<close>

definition leave :: "settings \<Rightarrow> env \<Rightarrow> 'a res \<times> batch_writer \<Rightarrow> 'a res \<times> batch_writer" where
  "leave st e rb =
     (case stop st e (snd rb) of
        (Raise err, bw) \<Rightarrow> (Raise err, bw)
      | (Ok u, bw) \<Rightarrow> (fst rb, bw))"

section \<open>The commit\<close>

text \<open>The class of the commit object: \<^verbatim>\<open>CommitPhase1\<close> or \<^verbatim>\<open>CommitPhase2\<close>.\<close>

datatype CommitModes = phase1 | phase2

text \<open>
  The commit object with what it reads and writes through its session: the state and the
  deadline of its task (a timestamp, \<open>None\<close> when the column is null), the state and the id
  of its publish, the rows of the \<^verbatim>\<open>items\<close> table, the rows of \<^verbatim>\<open>published_paths\<close> of its
  environment (path and time of update), and the events of the run with the schedule of
  the threads still to come. The task and the publish of the message are taken to exist.
\<close>

record commit_obj =
  task_state :: TaskStates
  task_deadline :: "int option"
  publish_state :: PublishStates
  publish_ident :: string
  db_items :: "item list"
  published_paths :: "(string \<times> int) list"
  written_item_ids :: "string list"
  flush_paths :: "string list"
  events :: "event list"
  sched :: "action list list"

text \<open>\<^verbatim>\<open>__init__\<close> of \<^verbatim>\<open>CommitBase\<close> and of \<^verbatim>\<open>CommitPhase2\<close>: nothing written, nothing to
  flush.\<close>

definition CommitBase_init :: "commit_obj \<Rightarrow> commit_obj" where
  "CommitBase_init c = c\<lparr>written_item_ids := [], flush_paths := []\<rparr>"

fun PUBLISH_STATES :: "CommitModes \<Rightarrow> PublishStates list" where
  "PUBLISH_STATES phase1 = [Publish_committing, Publish_pending]"
| "PUBLISH_STATES phase2 = [Publish_committing]"

definition db_commit :: "commit_obj \<Rightarrow> commit_obj" where
  "db_commit c = c\<lparr>events := events c @ [DBCommit (task_state c) (publish_state c)]\<rparr>"

fun on_failed :: "CommitModes \<Rightarrow> commit_obj \<Rightarrow> commit_obj" where
  "on_failed phase1 c = c\<lparr>task_state := Task_failed\<rparr>"
| "on_failed phase2 c = (c\<lparr>task_state := Task_failed\<rparr>)\<lparr>publish_state := Publish_failed\<rparr>"

text \<open>
  The property \<^verbatim>\<open>task_ready\<close>. \<^verbatim>\<open>task.deadline and (...)\<close> is false for a null
  deadline; the two \<^verbatim>\<open>timestamp()\<close> are compared as timestamps.
\<close>

definition task_ready :: "CommitModes \<Rightarrow> env \<Rightarrow> commit_obj \<Rightarrow> bool \<times> commit_obj" where
  "task_ready mode e c =
     (if task_state c = Task_complete \<or> task_state c = Task_failed then (False, c)
      else if (case task_deadline c of None \<Rightarrow> False | Some deadline \<Rightarrow> deadline < utcnow e)
      then (False, db_commit (on_failed mode c))
      else (True, c))"

definition publish_ready :: "CommitModes \<Rightarrow> commit_obj \<Rightarrow> bool" where
  "publish_ready mode c = (publish_state c \<in> set (PUBLISH_STATES mode))"

definition item_count :: "commit_obj \<Rightarrow> int" where
  "item_count c = int (length (filter (\<lambda>it. publish_id it = publish_ident c) (db_items c)))"

definition has_items :: "commit_obj \<Rightarrow> bool" where
  "has_items c = (0 < item_count c)"

text \<open>A list cut into slices of \<open>n\<close> elements, the last one shorter when the length is not
  a multiple of \<open>n\<close>.\<close>

function chunks :: "nat \<Rightarrow> 'a list \<Rightarrow> 'a list list" where
  "chunks n xs = (if n = 0 \<or> xs = [] then [] else take n xs # chunks n (drop n xs))"
  by pat_completeness auto
termination
  by (relation "measure (\<lambda>(n, xs). length xs)") auto

declare chunks.simps [simp del]

text \<open>
  The generator \<^verbatim>\<open>written_item_ids_batched\<close>, run to its end: \<^verbatim>\<open>range(0, len, chunk_size)\<close>
  raises \<open>ValueError\<close> for a step of zero and is empty for a negative one.
\<close>

definition written_item_ids_batched :: "settings \<Rightarrow> commit_obj \<Rightarrow> string list list res" where
  "written_item_ids_batched st c =
     (let chunk_size = item_yield_size st
      in if chunk_size = 0 then Raise (Exn ValueError ''range() arg 3 must not be zero'')
         else if chunk_size < 0 then Ok []
         else Ok (chunks (nat chunk_size) (written_item_ids c)))"

text \<open>\<^verbatim>\<open>UPDATE items SET dirty = false WHERE id IN item_ids\<close>.\<close>

definition mark_clean :: "string list \<Rightarrow> item list \<Rightarrow> item list" where
  "mark_clean item_ids rows =
     map (\<lambda>it. if item_id it \<in> set item_ids then it\<lparr>dirty := False\<rparr> else it) rows"

text \<open>The upsert of one row into \<^verbatim>\<open>published_paths\<close>.\<close>

fun upsert :: "string \<Rightarrow> int \<Rightarrow> (string \<times> int) list \<Rightarrow> (string \<times> int) list" where
  "upsert k v [] = [(k, v)]"
| "upsert k v ((k', v') # kvs) = (if k = k' then (k, v) # kvs else (k', v') # upsert k v kvs)"

definition CommitBase_on_succeeded :: "settings \<Rightarrow> commit_obj \<Rightarrow> unit res \<times> commit_obj" where
  "CommitBase_on_succeeded st c =
     (let c1 = c\<lparr>task_state := Task_complete\<rparr>
      in case written_item_ids_batched st c1 of
           Raise err \<Rightarrow> (Raise err, c1)
         | Ok batches \<Rightarrow>
             (Ok (), c1\<lparr>db_items := fold mark_clean batches (db_items c1)\<rparr>))"

fun on_succeeded :: "CommitModes \<Rightarrow> settings \<Rightarrow> env \<Rightarrow> commit_obj \<Rightarrow> unit res \<times> commit_obj" where
  "on_succeeded phase1 st e c = CommitBase_on_succeeded st c"
| "on_succeeded phase2 st e c =
     (case CommitBase_on_succeeded st c of
        (Raise err, c1) \<Rightarrow> (Raise err, c1)
      | (Ok u, c1) \<Rightarrow>
          (let updated_paths = uris_with_aliases e (flush_paths c1);
               c2 = (if updated_paths \<noteq> []
                     then c1\<lparr>published_paths :=
                            fold (\<lambda>path. upsert path (utcnow e)) updated_paths (published_paths c1)\<rparr>
                     else c1)
           in (Ok (), c2\<lparr>publish_state := Publish_committed\<rparr>)))"

definition should_write ::
  "CommitModes \<Rightarrow> settings \<Rightarrow> env \<Rightarrow> commit_obj \<Rightarrow> bool res \<times> commit_obj" where
  "should_write mode st e c =
     (case task_ready mode e c of
        (False, c1) \<Rightarrow> (Ok False, c1)
      | (True, c1) \<Rightarrow>
          (if \<not> publish_ready mode c1
           then (Ok False, db_commit (c1\<lparr>task_state := Task_failed\<rparr>))
           else if \<not> has_items c1
           then (case on_succeeded mode st e c1 of
                   (Raise err, c2) \<Rightarrow> (Raise err, c2)
                 | (Ok u, c2) \<Rightarrow> (Ok False, db_commit c2))
           else (Ok True, c1)))"

subsection \<open>Writing the items\<close>

text \<open>
  \<^verbatim>\<open>item_select\<close>: the dirty items of the publish in the order of their \<^verbatim>\<open>web_uri\<close>;
  \<^verbatim>\<open>CommitPhase1\<close> leaves out those whose \<^verbatim>\<open>object_key\<close> is null or empty.
\<close>

fun item_select :: "CommitModes \<Rightarrow> commit_obj \<Rightarrow> item list" where
  "item_select phase2 c =
     sort_key web_uri (filter (\<lambda>it. publish_id it = publish_ident c \<and> dirty it) (db_items c))"
| "item_select phase1 c =
     filter (\<lambda>it. (case object_key it of None \<Rightarrow> [] | Some k \<Rightarrow> k) \<noteq> [])
       (sort_key web_uri
          (filter (\<lambda>it. publish_id it = publish_ident c \<and> dirty it) (db_items c)))"

definition check_item :: "item \<Rightarrow> unit res" where
  "check_item it =
     (if object_key it = None \<or> object_key it = Some []
      then Raise (Exn ValueError (''BUG: missing object_key for '' @ web_uri it))
      else Ok ())"

text \<open>The loop over the rows of one partition, with the items and the final items so far.\<close>

fun partition_rows ::
  "settings \<Rightarrow> item list \<Rightarrow> item list \<Rightarrow> item list \<Rightarrow> batch_writer
     \<Rightarrow> (item list \<times> item list) res \<times> batch_writer" where
  "partition_rows st [] items final_items bw = (Ok (items, final_items), bw)"
| "partition_rows st (it # rows) items final_items bw =
     (case check_item it of
        Raise err \<Rightarrow> (Raise err, bw)
      | Ok u \<Rightarrow>
          (if is_phase2 st it
           then partition_rows st rows items (final_items @ [it]) (adjust_total (- 1) bw)
           else partition_rows st rows (items @ [it]) final_items bw))"

text \<open>The loop over the partitions, with the final items and the written ids so far.\<close>

fun partitions_loop ::
  "settings \<Rightarrow> env \<Rightarrow> item list list \<Rightarrow> item list \<Rightarrow> string list \<Rightarrow> batch_writer
     \<Rightarrow> item list res \<times> string list \<times> batch_writer" where
  "partitions_loop st e [] final_items written bw = (Ok final_items, written, bw)"
| "partitions_loop st e (part # rest) final_items written bw =
     (case partition_rows st part [] final_items bw of
        (Raise err, bw1) \<Rightarrow> (Raise err, written, bw1)
      | (Ok (items, final_items1), bw1) \<Rightarrow>
          (case queue_batches st e items bw1 of
             (queued, bw2) \<Rightarrow> partitions_loop st e rest final_items1 (written @ queued) bw2))"

text \<open>\<^verbatim>\<open>CommitBase.write_publish_items\<close>: the phase 1 items go through a writer, the
  phase 2 items are returned.\<close>

definition CommitBase_write_publish_items ::
  "CommitModes \<Rightarrow> settings \<Rightarrow> env \<Rightarrow> commit_obj \<Rightarrow> item list res \<times> commit_obj" where
  "CommitBase_write_publish_items mode st e c =
     (let bw0 = enter st (item_count c) ''Writing phase 1 items'' False (events c) (sched c)
      in case partitions_loop st e (partitions e (item_select mode c)) []
                (written_item_ids c) bw0 of
           (r, written, bw1) \<Rightarrow>
             (case leave st e (r, bw1) of
                (r', bw2) \<Rightarrow>
                  (r', c\<lparr>written_item_ids := written, events := bw_log bw2,
                         sched := bw_sched bw2\<rparr>)))"

definition endswith_slash :: "string \<Rightarrow> bool" where
  "endswith_slash path = (path \<noteq> [] \<and> last path = CHR ''/'')"

fun add_flush_paths :: "settings \<Rightarrow> string list \<Rightarrow> commit_obj \<Rightarrow> commit_obj" where
  "add_flush_paths st [] c = c"
| "add_flush_paths st (path # paths) c =
     (let path' =
        (if basename path = autoindex_filename st
         then (let d = dirname path in if \<not> endswith_slash d then d @ ''/'' else d)
         else path)
      in add_flush_paths st paths (c\<lparr>flush_paths := flush_paths c @ [path']\<rparr>))"

definition flush_cache :: "settings \<Rightarrow> commit_obj \<Rightarrow> commit_obj" where
  "flush_cache st c =
     (if cdn_flush_on_commit st then c\<lparr>events := events c @ [Flush (flush_paths c)]\<rparr> else c)"

text \<open>The second \<^verbatim>\<open>with\<close> statement of \<^verbatim>\<open>CommitPhase2.write_publish_items\<close>, for the final
  items the first one returned.\<close>

definition write_final_items ::
  "settings \<Rightarrow> env \<Rightarrow> item list \<Rightarrow> commit_obj \<Rightarrow> unit res \<times> commit_obj" where
  "write_final_items st e final_items c =
     (let bw0 = enter st (int (length final_items)) ''Writing phase 2 items'' False
                  (events c) (sched c)
      in case (if final_items \<noteq> [] then queue_batches st e final_items bw0 else ([], bw0)) of
           (queued, bw1) \<Rightarrow>
             (case leave st e (Ok (), bw1) of
                (r, bw2) \<Rightarrow>
                  (let c1 = c\<lparr>written_item_ids := written_item_ids c @ queued,
                              events := bw_log bw2, sched := bw_sched bw2\<rparr>
                   in (r, if final_items \<noteq> []
                          then add_flush_paths st (map web_uri final_items) c1
                          else c1))))"

fun write_publish_items ::
  "CommitModes \<Rightarrow> settings \<Rightarrow> env \<Rightarrow> commit_obj \<Rightarrow> item list res \<times> commit_obj" where
  "write_publish_items phase1 st e c =
     (case CommitBase_write_publish_items phase1 st e c of
        (Raise err, c1) \<Rightarrow> (Raise err, c1)
      | (Ok final_items, c1) \<Rightarrow> (Ok [], c1))"
| "write_publish_items phase2 st e c =
     (case CommitBase_write_publish_items phase2 st e c of
        (Raise err, c1) \<Rightarrow> (Raise err, c1)
      | (Ok final_items, c1) \<Rightarrow>
          (case write_final_items st e final_items c1 of
             (Raise err, c2) \<Rightarrow> (Raise err, c2)
           | (Ok u, c2) \<Rightarrow> (Ok [], flush_cache st c2)))"

subsection \<open>Rolling back\<close>

text \<open>The loop of \<^verbatim>\<open>CommitBase.rollback_publish_items\<close> over the chunks of ids: one
  writer in delete mode for each.\<close>

fun rollback_loop ::
  "settings \<Rightarrow> env \<Rightarrow> string list list \<Rightarrow> commit_obj \<Rightarrow> unit res \<times> commit_obj" where
  "rollback_loop st e [] c = (Ok (), c)"
| "rollback_loop st e (item_ids # rest) c =
     (let bw0 = enter st (int (length item_ids)) ''Rolling back'' True (events c) (sched c);
          items = filter (\<lambda>it. item_id it \<in> set item_ids) (db_items c)
      in case queue_batches st e items bw0 of
           (queued, bw1) \<Rightarrow>
             (case leave st e (Ok (), bw1) of
                (r, bw2) \<Rightarrow>
                  (let c1 = c\<lparr>events := bw_log bw2, sched := bw_sched bw2\<rparr>
                   in case r of
                        Raise err \<Rightarrow> (Raise err, c1)
                      | Ok u \<Rightarrow> rollback_loop st e rest c1)))"

definition CommitBase_rollback_publish_items ::
  "settings \<Rightarrow> env \<Rightarrow> commit_obj \<Rightarrow> unit res \<times> commit_obj" where
  "CommitBase_rollback_publish_items st e c =
     (case written_item_ids_batched st c of
        Raise err \<Rightarrow> (Raise err, c)
      | Ok batches \<Rightarrow> rollback_loop st e batches c)"

fun rollback_publish_items ::
  "CommitModes \<Rightarrow> settings \<Rightarrow> env \<Rightarrow> commit_obj \<Rightarrow> unit res \<times> commit_obj" where
  "rollback_publish_items phase1 st e c = CommitBase_rollback_publish_items st e c"
| "rollback_publish_items phase2 st e c =
     (case CommitBase_rollback_publish_items st e c of
        (Raise err, c1) \<Rightarrow> (Raise err, c1)
      | (Ok u, c1) \<Rightarrow> (Ok (), flush_cache st c1))"

subsection \<open>The actor\<close>

fun pre_write :: "CommitModes \<Rightarrow> env \<Rightarrow> commit_obj \<Rightarrow> unit res \<times> commit_obj" where
  "pre_write phase1 e c = (Ok (), c)"
| "pre_write phase2 e c =
     (let c1 = c\<lparr>events := events c @ [PreWrite]\<rparr>
      in case enricher_run e (db_items c1) of
           Raise err \<Rightarrow> (Raise err, c1)
         | Ok new_items \<Rightarrow> (Ok (), c1\<lparr>db_items := db_items c1 @ new_items\<rparr>))"

text \<open>The body of the \<^verbatim>\<open>try\<close> statement of \<^verbatim>\<open>commit\<close>.\<close>

definition commit_try :: "CommitModes \<Rightarrow> settings \<Rightarrow> env \<Rightarrow> commit_obj \<Rightarrow> unit res \<times> commit_obj" where
  "commit_try mode st e c =
     (case write_publish_items mode st e c of
        (Raise err, c1) \<Rightarrow> (Raise err, c1)
      | (Ok final_items, c1) \<Rightarrow>
          (case on_succeeded mode st e c1 of
             (Raise err, c2) \<Rightarrow> (Raise err, c2)
           | (Ok u, c2) \<Rightarrow> (Ok (), db_commit c2)))"

text \<open>
  The handler \<^verbatim>\<open>except Exception\<close> of \<^verbatim>\<open>commit\<close>: the roll-back inside
  \<^verbatim>\<open>try ... finally\<close>; the \<^verbatim>\<open>finally\<close> block runs in every case, and an exception of the
  roll-back goes on after it. When the roll-back returns, the handler returns.
\<close>

definition commit_except :: "CommitModes \<Rightarrow> settings \<Rightarrow> env \<Rightarrow> commit_obj \<Rightarrow> unit res \<times> commit_obj" where
  "commit_except mode st e c =
     (case rollback_publish_items mode st e c of
        (r, c1) \<Rightarrow> (r, db_commit (on_failed mode c1)))"

text \<open>The \<^verbatim>\<open>try\<close> statement of \<^verbatim>\<open>commit\<close>: its body, and the handler when the body
  raises. The handler ends with \<^verbatim>\<open>return\<close>.\<close>

definition commit_write_path ::
  "CommitModes \<Rightarrow> settings \<Rightarrow> env \<Rightarrow> commit_obj \<Rightarrow> unit res \<times> commit_obj" where
  "commit_write_path mode st e c =
     (case commit_try mode st e c of
        (Ok u, c1) \<Rightarrow> (Ok (), c1)
      | (Raise exc_info, c1) \<Rightarrow> commit_except mode st e c1)"

text \<open>The dictionary of the commit classes, looked up with \<^verbatim>\<open>commit_mode or "phase2"\<close>.\<close>

definition commit_class :: "string option \<Rightarrow> CommitModes res" where
  "commit_class commit_mode =
     (let m = (case commit_mode of None \<Rightarrow> ''phase2'' | Some s \<Rightarrow> if s = [] then ''phase2'' else s)
      in if m = ''phase1'' then Ok phase1
         else if m = ''phase2'' then Ok phase2
         else Raise (Exn KeyError m))"

text \<open>\<^verbatim>\<open>get_environment\<close>, called by \<^verbatim>\<open>CommitBase.__init__\<close>.\<close>

definition get_environment :: "env \<Rightarrow> string \<Rightarrow> unit res" where
  "get_environment e env_name =
     (if env_name \<in> set (environments e) then Ok ()
      else Raise (Exn HTTPException (''Invalid environment='' @ env_name)))"

text \<open>
  The actor \<^verbatim>\<open>commit\<close>, on the commit object its class builds from the rows of the task
  and of the publish. \<open>Ok ()\<close> is a return to the broker, \<open>Raise\<close> an exception that reaches it.
\<close>

definition commit ::
  "string \<Rightarrow> string option \<Rightarrow> settings \<Rightarrow> env \<Rightarrow> commit_obj \<Rightarrow> unit res \<times> commit_obj" where
  "commit env_name commit_mode st e c =
     (case commit_class commit_mode of
        Raise err \<Rightarrow> (Raise err, c)
      | Ok mode \<Rightarrow>
          (case get_environment e env_name of
             Raise err \<Rightarrow> (Raise err, c)
           | Ok u \<Rightarrow>
               (case should_write mode st e (CommitBase_init c) of
                  (Raise err, c1) \<Rightarrow> (Raise err, c1)
                | (Ok False, c1) \<Rightarrow> (Ok (), c1)
                | (Ok True, c1) \<Rightarrow>
                    (case pre_write mode e (db_commit (c1\<lparr>task_state := Task_in_progress\<rparr>)) of
                       (Raise err, c2) \<Rightarrow> (Raise err, c2)
                     | (Ok u, c2) \<Rightarrow> commit_write_path mode st e c2))))"

section \<open>Reading the events of a run\<close>

text \<open>The writer an event belongs to, by its message.\<close>

fun ev_msg :: "event \<Rightarrow> string option" where
  "ev_msg (Enter m) = Some m"
| "ev_msg (Put m x) = Some m"
| "ev_msg (WriteIssued m b d) = Some m"
| "ev_msg (WriteDone m b d r) = Some m"
| "ev_msg (Joined m) = Some m"
| "ev_msg (Exit m errs) = Some m"
| "ev_msg (DBCommit ts ps) = None"
| "ev_msg PreWrite = None"
| "ev_msg (Flush paths) = None"

text \<open>The batches put on a queue, the batches \<^verbatim>\<open>write_batch\<close> was called with and the
  batches whose call has ended, in the order of the events.\<close>

fun put_batch :: "event \<Rightarrow> item list list" where
  "put_batch (Put m (Batch b)) = [b]"
| "put_batch ev = []"

fun issued_batch :: "event \<Rightarrow> item list list" where
  "issued_batch (WriteIssued m b d) = [b]"
| "issued_batch ev = []"

fun done_batch :: "event \<Rightarrow> item list list" where
  "done_batch (WriteDone m b d r) = [b]"
| "done_batch ev = []"

definition puts_of :: "event list \<Rightarrow> item list list" where
  "puts_of lg = concat (map put_batch lg)"

definition issued_of :: "event list \<Rightarrow> item list list" where
  "issued_of lg = concat (map issued_batch lg)"

definition done_of :: "event list \<Rightarrow> item list list" where
  "done_of lg = concat (map done_batch lg)"

text \<open>A call of \<^verbatim>\<open>write_batch\<close> ended with an exception the worker loop catches.\<close>

fun caught_failure :: "event \<Rightarrow> bool" where
  "caught_failure (WriteDone m b d (Some err)) = worker_catches err"
| "caught_failure ev = False"

text \<open>A call of \<^verbatim>\<open>write_batch\<close> ended with an exception.\<close>

fun write_failure :: "event \<Rightarrow> bool" where
  "write_failure (WriteDone m b d (Some err)) = True"
| "write_failure ev = False"

fun is_write :: "event \<Rightarrow> bool" where
  "is_write (WriteIssued m b d) = True"
| "is_write (WriteDone m b d r) = True"
| "is_write ev = False"

text \<open>The \<^verbatim>\<open>delete\<close> flag of a call of \<^verbatim>\<open>write_batch\<close>.\<close>

fun ev_delete :: "event \<Rightarrow> bool option" where
  "ev_delete (WriteIssued m b d) = Some d"
| "ev_delete (WriteDone m b d r) = Some d"
| "ev_delete ev = None"

fun is_flush :: "event \<Rightarrow> bool" where
  "is_flush (Flush paths) = True"
| "is_flush ev = False"

text \<open>The batches waiting in a queue and the batches the workers are writing.\<close>

fun entry_batch :: "entry \<Rightarrow> item list list" where
  "entry_batch (Batch b) = [b]"
| "entry_batch Sentinel = []"

definition queued :: "entry list \<Rightarrow> item list list" where
  "queued q = concat (map entry_batch q)"

fun wstate_batch :: "wstate \<Rightarrow> item list list" where
  "wstate_batch (InWrite b) = [b]"
| "wstate_batch w = []"

definition writing :: "wstate list \<Rightarrow> item list list" where
  "writing ths = concat (map wstate_batch ths)"

text \<open>
  The events \<open>L\<close> of a writer agree with its state: they are its own, every batch put
  is waiting in the queue or was handed to \<^verbatim>\<open>write_batch\<close>, every call of
  \<^verbatim>\<open>write_batch\<close> has ended or is the one a worker is in, an exception the worker
  loop caught has left an error, and every call has the \<^verbatim>\<open>delete\<close> flag of the writer.
\<close>

definition consistent :: "event list \<Rightarrow> batch_writer \<Rightarrow> bool" where
  "consistent L bw \<longleftrightarrow>
     list_all (\<lambda>ev. ev_msg ev = Some (bw_message bw)) L
     \<and> mset (puts_of L) = mset (issued_of L) + mset (queued (bw_queue bw))
     \<and> mset (issued_of L) = mset (done_of L) + mset (writing (bw_threads bw))
     \<and> (list_ex caught_failure L \<longrightarrow> bw_errors bw \<noteq> [])
     \<and> list_all (\<lambda>ev. ev_delete ev = None \<or> ev_delete ev = Some (bw_delete bw)) L"

definition bw_inv :: "event list \<Rightarrow> batch_writer \<Rightarrow> bool" where
  "bw_inv L0 bw \<longleftrightarrow> (\<exists>L. bw_log bw = L0 @ L \<and> consistent L bw)"

text \<open>Sentinels come after the batches in a queue.\<close>

fun fifo :: "entry list \<Rightarrow> bool" where
  "fifo [] = True"
| "fifo (Batch b # q) = fifo q"
| "fifo (Sentinel # q) = list_all (\<lambda>x. x = Sentinel) q"

text \<open>
  The states of a writer inside the \<^verbatim>\<open>with\<close> statements of the commit: after
  \<^verbatim>\<open>__enter__\<close>, and after each call of \<^verbatim>\<open>queue_batches\<close> and of \<^verbatim>\<open>adjust_total\<close>.
\<close>

inductive in_scope :: "settings \<Rightarrow> env \<Rightarrow> batch_writer \<Rightarrow> bool" for st e where
  entered: "in_scope st e (enter st n message del lg sch)"
| queued_more: "in_scope st e bw \<Longrightarrow> in_scope st e (snd (queue_batches st e items bw))"
| adjusted: "in_scope st e bw \<Longrightarrow> in_scope st e (adjust_total increment bw)"

text \<open>The sentinels put on the queue, and the errors \<open>Full\<close> recorded.\<close>

definition sentinel_puts :: "event list \<Rightarrow> nat" where
  "sentinel_puts lg = length (filter (\<lambda>ev. case ev of Put m Sentinel \<Rightarrow> True | _ \<Rightarrow> False) lg)"

definition full_errors :: "exn list \<Rightarrow> nat" where
  "full_errors errs = length (filter (\<lambda>err. exn_class err = Full) errs)"

text \<open>
  What the worker threads can do to a writer between two steps of its owner: they take
  entries from the front of the queue, call \<^verbatim>\<open>write_batch\<close>, record errors other than
  \<open>Full\<close>, and finish; a finished thread stays finished.
\<close>

definition worked :: "batch_writer \<Rightarrow> batch_writer \<Rightarrow> bool" where
  "worked bw bw' \<longleftrightarrow>
     bw_message bw' = bw_message bw \<and> bw_delete bw' = bw_delete bw
     \<and> length (bw_threads bw') = length (bw_threads bw)
     \<and> (\<exists>errs. bw_errors bw' = bw_errors bw @ errs \<and> full_errors errs = 0)
     \<and> (\<exists>k. bw_queue bw' = drop k (bw_queue bw))
     \<and> (\<exists>L. bw_log bw' = bw_log bw @ L \<and> list_all is_write L)
     \<and> (\<forall>j < length (bw_threads bw). bw_threads bw ! j = Finished \<longrightarrow> bw_threads bw' ! j = Finished)"

text \<open>What a writer keeps through its life: its message and mode, the number of its
  threads, the errors and events it has, and the threads that have finished.\<close>

definition grown :: "batch_writer \<Rightarrow> batch_writer \<Rightarrow> bool" where
  "grown bw bw' \<longleftrightarrow>
     bw_message bw' = bw_message bw \<and> bw_delete bw' = bw_delete bw
     \<and> length (bw_threads bw') = length (bw_threads bw)
     \<and> (\<exists>errs. bw_errors bw' = bw_errors bw @ errs)
     \<and> (\<exists>L. bw_log bw' = bw_log bw @ L)
     \<and> (\<forall>j < length (bw_threads bw). bw_threads bw ! j = Finished \<longrightarrow> bw_threads bw' ! j = Finished)"

text \<open>Two commit objects with the same rows in the relational store.\<close>

definition same_rows :: "commit_obj \<Rightarrow> commit_obj \<Rightarrow> bool" where
  "same_rows c c' \<longleftrightarrow>
     task_state c' = task_state c \<and> task_deadline c' = task_deadline c
     \<and> publish_state c' = publish_state c \<and> publish_ident c' = publish_ident c
     \<and> db_items c' = db_items c \<and> published_paths c' = published_paths c"

text \<open>The events a run has added to those of the commit object it started from.\<close>

definition new_events :: "commit_obj \<Rightarrow> commit_obj \<Rightarrow> event list" where
  "new_events c c' = drop (length (events c)) (events c')"

section \<open>A sample run\<close>

text \<open>Settings, collaborators and rows used to run the definitions on concrete inputs: two
  workers, an unbounded queue, batches of one item, one partition, a store that accepts
  every write.\<close>

definition sample_settings :: settings where
  "sample_settings =
     \<lparr>autoindex_filename = ''.__exodus_autoindex'',
      entry_point_files = [''repomd.xml'', ''treeinfo''],
      phase2_patterns = [],
      item_yield_size = 1, write_max_workers = 2, write_queue_size = 0,
      cdn_flush_on_commit = True\<rparr>"

definition sample_env :: env where
  "sample_env =
     \<lparr>write_batch = (\<lambda>n batch del. None),
      get_batches = (\<lambda>items. map (\<lambda>it. [it]) items),
      partitions = (\<lambda>rows. [rows]),
      enricher_run = (\<lambda>rows. Ok []),
      uris_with_aliases = (\<lambda>paths. paths),
      utcnow = 100,
      environments = [''test'']\<rparr>"

definition sample_item :: "string \<Rightarrow> string \<Rightarrow> item" where
  "sample_item i uri =
     \<lparr>item_id = i, publish_id = ''P'', web_uri = uri, object_key = Some ''key'', dirty = True\<rparr>"

definition sample_commit :: commit_obj where
  "sample_commit =
     \<lparr>task_state = Task_not_started, task_deadline = Some 200,
      publish_state = Publish_committing, publish_ident = ''P'',
      db_items = [sample_item ''1'' ''/a/x.rpm'', sample_item ''2'' ''/c/repomd.xml''],
      published_paths = [], written_item_ids = [], flush_paths = [],
      events = [], sched = []\<rparr>"

text \<open>A writer with one batch queued and nothing written yet.\<close>

definition sample_writer :: batch_writer where
  "sample_writer =
     snd (queue_batches sample_settings sample_env [sample_item ''1'' ''/a/x.rpm'']
            (enter sample_settings 1 ''Writing phase 1 items'' False [] []))"


text \<open>A store that refuses every put and accepts every delete, a store that refuses every
  request, and an enricher that fails.\<close>

definition put_failing_env :: env where
  "put_failing_env =
     sample_env\<lparr>write_batch :=
       (\<lambda>n batch del. if del then None else Some (Exn RuntimeError ''put refused''))\<rparr>"

definition refusing_env :: env where
  "refusing_env =
     sample_env\<lparr>write_batch := (\<lambda>n batch del. Some (Exn RuntimeError ''refused''))\<rparr>"

definition enricher_failing_env :: env where
  "enricher_failing_env =
     sample_env\<lparr>enricher_run := (\<lambda>rows. Raise (Exn OtherError ''enricher failed''))\<rparr>"

section \<open>The path predicates\<close>

lemma any_pattern_matches_iff:
  "any_pattern_matches ps uri \<longleftrightarrow> (\<exists>p\<in>set ps. search p uri)"
  by (induction ps) auto

lemma includes_loop_iff: "includes_loop ps path \<longleftrightarrow> (\<exists>p\<in>set ps. search p path)"
  by (induction ps) auto

lemma excludes_loop_iff: "excludes_loop ps path \<longleftrightarrow> \<not> (\<exists>p\<in>set ps. search p path)"
  by (induction ps) auto

text \<open>\<open>basename\<close> is the last component: it holds no slash, and it is \<open>n\<close> for a path
  \<open>d/n\<close> whose \<open>n\<close> holds none.\<close>

lemma basename_no_slash: "CHR ''/'' \<notin> set (basename p)"
  by (auto simp: basename_def dest: set_takeWhileD)

lemma basename_append_slash:
  "CHR ''/'' \<notin> set n \<Longrightarrow> basename (d @ CHR ''/'' # n) = n"
proof -
  assume a: "CHR ''/'' \<notin> set n"
  have "takeWhile (\<lambda>c. c \<noteq> CHR ''/'') (rev n @ CHR ''/'' # rev d) = rev n"
    using a by (induction n rule: rev_induct) auto
  then show ?thesis by (simp add: basename_def)
qed

lemma basename_plain: "CHR ''/'' \<notin> set n \<Longrightarrow> basename n = n"
proof -
  assume "CHR ''/'' \<notin> set n"
  then have "takeWhile (\<lambda>c. c \<noteq> CHR ''/'') (rev n) = rev n"
    by (auto simp: takeWhile_eq_all_conv)
  then show ?thesis by (simp only: basename_def rev_rev_ident)
qed

text \<open>
  C7. \<open>is_phase2\<close> is a function of the settings and the item only, and it holds exactly
  when the basename of the item's \<open>web_uri\<close> is the autoindex filename, or is one of the
  \<open>entry_point_files\<close>, or some pattern of \<open>phase2_patterns\<close> is found in the \<open>web_uri\<close>.
\<close>

theorem is_phase2_iff:
  "is_phase2 st it \<longleftrightarrow>
     (basename (web_uri it) = autoindex_filename st
      \<or> basename (web_uri it) \<in> set (entry_point_files st)
      \<or> (\<exists>p\<in>set (phase2_patterns st). search p (web_uri it)))"
  by (auto simp: is_phase2_def Let_def any_pattern_matches_iff)

text \<open>
  C8. A rule matches a path exactly when some include pattern is found in the path with one
  leading slash put in front (after one leading slash, if any, was taken off) and no exclude
  pattern is; so a path gives the same answer with and without its leading slash.
\<close>

theorem matches_iff:
  "(matches r path \<longleftrightarrow>
      ((\<exists>p\<in>set (rule_includes r). search p (normalize_path path))
       \<and> \<not> (\<exists>p\<in>set (rule_excludes r). search p (normalize_path path))))
   \<and> normalize_path path = CHR ''/'' # removeprefix_slash path
   \<and> matches r (CHR ''/'' # removeprefix_slash path) = matches r path"
  by (cases path)
     (auto simp: matches_def Let_def includes_loop_iff excludes_loop_iff normalize_path_def)

section \<open>The steps of the worker threads\<close>

lemma set_thread_fields [simp]:
  "bw_queue (set_thread i w bw) = bw_queue bw"
  "bw_errors (set_thread i w bw) = bw_errors bw"
  "bw_log (set_thread i w bw) = bw_log bw"
  "bw_message (set_thread i w bw) = bw_message bw"
  "bw_delete (set_thread i w bw) = bw_delete bw"
  "bw_sched (set_thread i w bw) = bw_sched bw"
  "bw_threads (set_thread i w bw) = (bw_threads bw)[i := w]"
  by (simp_all add: set_thread_def)

lemma emit_fields [simp]:
  "bw_queue (emit ev bw) = bw_queue bw"
  "bw_errors (emit ev bw) = bw_errors bw"
  "bw_log (emit ev bw) = bw_log bw @ [ev]"
  "bw_message (emit ev bw) = bw_message bw"
  "bw_delete (emit ev bw) = bw_delete bw"
  "bw_sched (emit ev bw) = bw_sched bw"
  "bw_threads (emit ev bw) = bw_threads bw"
  by (simp_all add: emit_def)

lemma append_error_fields [simp]:
  "bw_queue (append_error err bw) = bw_queue bw"
  "bw_errors (append_error err bw) = bw_errors bw @ [err]"
  "bw_log (append_error err bw) = bw_log bw"
  "bw_message (append_error err bw) = bw_message bw"
  "bw_delete (append_error err bw) = bw_delete bw"
  "bw_sched (append_error err bw) = bw_sched bw"
  "bw_threads (append_error err bw) = bw_threads bw"
  by (simp_all add: append_error_def)

lemma adjust_total_fields [simp]:
  "bw_queue (adjust_total k bw) = bw_queue bw"
  "bw_errors (adjust_total k bw) = bw_errors bw"
  "bw_log (adjust_total k bw) = bw_log bw"
  "bw_message (adjust_total k bw) = bw_message bw"
  "bw_delete (adjust_total k bw) = bw_delete bw"
  "bw_sched (adjust_total k bw) = bw_sched bw"
  "bw_threads (adjust_total k bw) = bw_threads bw"
  by (simp_all add: adjust_total_def)

text \<open>The test \<^verbatim>\<open>err is not Empty\<close> compares an instance with a class: it always holds, so
  the handler records every exception it catches.\<close>

lemma err_is_not_Empty: "\<not> py_is (Instance err) (Class Empty)"
  by (simp add: py_is_def)

lemma worker_except_eq:
  "worker_except i err bw =
     set_thread i Finished (if worker_catches err then append_error err bw else bw)"
  by (simp add: worker_except_def err_is_not_Empty)

text \<open>What an action can do to a writer: one of seven things.\<close>

lemma do_action_cases [case_names idle tested got_sentinel got_batch written failed timed_out]:
  obtains
    (idle) "do_action e a bw = bw"
  | (tested) i w where "i < length (bw_threads bw)" "bw_threads bw ! i = AtLoopTest"
      "w = InGet \<and> bw_errors bw = [] \<or> w = Finished \<and> bw_errors bw \<noteq> []"
      "do_action e a bw = set_thread i w bw"
  | (got_sentinel) i q where "i < length (bw_threads bw)" "bw_threads bw ! i = InGet"
      "bw_queue bw = Sentinel # q"
      "do_action e a bw = set_thread i Finished (bw\<lparr>bw_queue := q\<rparr>)"
  | (got_batch) i q got where "i < length (bw_threads bw)" "bw_threads bw ! i = InGet"
      "bw_queue bw = Batch got # q"
      "do_action e a bw =
         emit (WriteIssued (bw_message bw) got (bw_delete bw))
           (set_thread i (InWrite got) (bw\<lparr>bw_queue := q\<rparr>))"
  | (written) i got where "i < length (bw_threads bw)" "bw_threads bw ! i = InWrite got"
      "write_batch e (length (bw_log bw)) got (bw_delete bw) = None"
      "do_action e a bw =
         set_thread i AtLoopTest
           ((emit (WriteDone (bw_message bw) got (bw_delete bw) None) bw)
              \<lparr>bw_items_done := bw_items_done bw + int (length got)\<rparr>)"
  | (failed) i got err where "i < length (bw_threads bw)" "bw_threads bw ! i = InWrite got"
      "write_batch e (length (bw_log bw)) got (bw_delete bw) = Some err"
      "do_action e a bw =
         set_thread i Finished
           (if worker_catches err
            then append_error err (emit (WriteDone (bw_message bw) got (bw_delete bw) (Some err)) bw)
            else emit (WriteDone (bw_message bw) got (bw_delete bw) (Some err)) bw)"
  | (timed_out) i where "i < length (bw_threads bw)" "bw_threads bw ! i = InGet"
      "bw_queue bw = []"
      "do_action e a bw = set_thread i Finished (append_error (Exn Empty []) bw)"
proof (cases a)
  case (Step i)
  show ?thesis
  proof (cases "i < length (bw_threads bw)")
    case False
    with Step have "do_action e a bw = bw" by (simp add: worker_step_def)
    then show ?thesis by (rule idle)
  next
    case True
    show ?thesis
    proof (cases "bw_threads bw ! i")
      case AtLoopTest
      show ?thesis
      proof (cases "bw_errors bw = []")
        case True
        with Step \<open>i < length (bw_threads bw)\<close> AtLoopTest
        have "do_action e a bw = set_thread i InGet bw" by (simp add: worker_step_def)
        with \<open>i < length (bw_threads bw)\<close> AtLoopTest True show ?thesis
          by (intro tested[of i InGet]) simp_all
      next
        case False
        with Step \<open>i < length (bw_threads bw)\<close> AtLoopTest
        have "do_action e a bw = set_thread i Finished bw" by (simp add: worker_step_def)
        with \<open>i < length (bw_threads bw)\<close> AtLoopTest False show ?thesis
          by (intro tested[of i Finished]) simp_all
      qed
    next
      case InGet
      show ?thesis
      proof (cases "bw_queue bw")
        case Nil
        with Step True InGet have "do_action e a bw = bw" by (simp add: worker_step_def)
        then show ?thesis by (rule idle)
      next
        case (Cons x q)
        show ?thesis
        proof (cases x)
          case Sentinel
          with Step True InGet Cons
          have "do_action e a bw = set_thread i Finished (bw\<lparr>bw_queue := q\<rparr>)"
            by (simp add: worker_step_def)
          with True InGet Cons Sentinel show ?thesis by (intro got_sentinel[of i q]) simp_all
        next
          case (Batch got)
          with Step True InGet Cons
          have "do_action e a bw =
                  emit (WriteIssued (bw_message bw) got (bw_delete bw))
                    (set_thread i (InWrite got) (bw\<lparr>bw_queue := q\<rparr>))"
            by (simp add: worker_step_def)
          with True InGet Cons Batch show ?thesis by (intro got_batch[of i got q]) simp_all
        qed
      qed
    next
      case (InWrite got)
      show ?thesis
      proof (cases "write_batch e (length (bw_log bw)) got (bw_delete bw)")
        case None
        with Step True InWrite
        have "do_action e a bw =
                set_thread i AtLoopTest
                  ((emit (WriteDone (bw_message bw) got (bw_delete bw) None) bw)
                     \<lparr>bw_items_done := bw_items_done bw + int (length got)\<rparr>)"
          by (simp add: worker_step_def)
        with True InWrite None show ?thesis by (intro written[of i got]) simp_all
      next
        case (Some err)
        with Step True InWrite
        have "do_action e a bw =
                set_thread i Finished
                  (if worker_catches err
                   then append_error err
                          (emit (WriteDone (bw_message bw) got (bw_delete bw) (Some err)) bw)
                   else emit (WriteDone (bw_message bw) got (bw_delete bw) (Some err)) bw)"
          by (simp add: worker_step_def worker_except_eq)
        with True InWrite Some show ?thesis by (intro failed[of i got err]) simp_all
      qed
    next
      case Finished
      with Step True have "do_action e a bw = bw" by (simp add: worker_step_def)
      then show ?thesis by (rule idle)
    qed
  qed
next
  case (Timeout i)
  show ?thesis
  proof (cases "i < length (bw_threads bw) \<and> bw_threads bw ! i = InGet \<and> bw_queue bw = []")
    case True
    with Timeout
    have "do_action e a bw = set_thread i Finished (append_error (Exn Empty []) bw)"
      by (simp add: worker_timeout_def worker_except_eq worker_catches_def)
    with True show ?thesis by (intro timed_out[of i]) simp_all
  next
    case False
    with Timeout have "do_action e a bw = bw" by (auto simp: worker_timeout_def)
    then show ?thesis by (rule idle)
  qed
qed

text \<open>
  C5. The claim is that a worker whose \<^verbatim>\<open>queue.get\<close> times out leaves the loop without
  recording the \<open>Empty\<close> it caught. The code does record it: the handler tests
  \<^verbatim>\<open>err is not Empty\<close>, an instance against the class, which is always true. A worker
  blocked on the empty queue whose \<^verbatim>\<open>get\<close> times out appends the \<open>Empty\<close> to the errors
  and finishes.
\<close>

theorem Empty_is_recorded:
  "bw_errors (do_action e (Timeout 0) (bw\<lparr>bw_threads := [InGet], bw_queue := []\<rparr>))
     = bw_errors bw @ [Exn Empty []]
   \<and> bw_threads (do_action e (Timeout 0) (bw\<lparr>bw_threads := [InGet], bw_queue := []\<rparr>))
     = [Finished]"
  by (simp add: worker_timeout_def worker_except_eq worker_catches_def)

section \<open>The events of a writer agree with its state\<close>

lemma puts_of_append [simp]: "puts_of (L @ L') = puts_of L @ puts_of L'"
  by (simp add: puts_of_def)

lemma issued_of_append [simp]: "issued_of (L @ L') = issued_of L @ issued_of L'"
  by (simp add: issued_of_def)

lemma done_of_append [simp]: "done_of (L @ L') = done_of L @ done_of L'"
  by (simp add: done_of_def)

lemma of_Nil [simp]: "puts_of [] = []" "issued_of [] = []" "done_of [] = []"
  by (simp_all add: puts_of_def issued_of_def done_of_def)

lemma of_Cons [simp]:
  "puts_of (ev # L) = put_batch ev @ puts_of L"
  "issued_of (ev # L) = issued_batch ev @ issued_of L"
  "done_of (ev # L) = done_batch ev @ done_of L"
  by (simp_all add: puts_of_def issued_of_def done_of_def)

lemma of_single:
  "puts_of [ev] = put_batch ev" "issued_of [ev] = issued_batch ev" "done_of [ev] = done_batch ev"
  by (simp_all add: puts_of_def issued_of_def done_of_def)

lemma queued_simps [simp]:
  "queued [] = []" "queued (x # q) = entry_batch x @ queued q"
  "queued (q @ q') = queued q @ queued q'"
  by (simp_all add: queued_def)

lemma writing_simps [simp]:
  "writing [] = []" "writing (w # ws) = wstate_batch w @ writing ws"
  "writing (ws @ ws') = writing ws @ writing ws'"
  by (simp_all add: writing_def)

lemma writing_update:
  "i < length ths \<Longrightarrow>
     mset (writing (ths[i := w])) + mset (wstate_batch (ths ! i))
       = mset (writing ths) + mset (wstate_batch w)"
proof (induction ths arbitrary: i)
  case Nil
  then show ?case by simp
next
  case (Cons a ths)
  show ?case
  proof (cases i)
    case 0
    then show ?thesis by simp
  next
    case (Suc j)
    with Cons.prems have "j < length ths" by simp
    from Cons.IH[OF this] Suc show ?thesis by (simp add: ac_simps)
  qed
qed

lemma writing_update_same:
  "i < length ths \<Longrightarrow> wstate_batch (ths ! i) = [] \<Longrightarrow> wstate_batch w = [] \<Longrightarrow>
     mset (writing (ths[i := w])) = mset (writing ths)"
  using writing_update[of i ths w] by simp

lemma writing_update_start:
  "i < length ths \<Longrightarrow> wstate_batch (ths ! i) = [] \<Longrightarrow>
     mset (writing (ths[i := InWrite b])) = mset (writing ths) + {#b#}"
  using writing_update[of i ths "InWrite b"] by simp

lemma writing_update_end:
  "i < length ths \<Longrightarrow> ths ! i = InWrite b \<Longrightarrow> wstate_batch w = [] \<Longrightarrow>
     mset (writing (ths[i := w])) + {#b#} = mset (writing ths)"
  using writing_update[of i ths w] by simp

lemma consistent_do_action:
  assumes "consistent L bw" "bw_log bw = L0 @ L"
  shows "\<exists>L'. bw_log (do_action e a bw) = L0 @ L' \<and> consistent L' (do_action e a bw)"
proof (cases e a bw rule: do_action_cases)
  case idle
  with assms show ?thesis by auto
next
  case (tested i w)
  have "consistent L (set_thread i w bw)"
    using assms(1) tested(1,2,3)
    by (auto simp: consistent_def writing_update_same)
  with tested(4) assms(2) show ?thesis by auto
next
  case (got_sentinel i q)
  have "consistent L (set_thread i Finished (bw\<lparr>bw_queue := q\<rparr>))"
    using assms(1) got_sentinel(1,2,3)
    by (auto simp: consistent_def writing_update_same)
  with got_sentinel(4) assms(2) show ?thesis by auto
next
  case (got_batch i q got)
  let ?ev = "WriteIssued (bw_message bw) got (bw_delete bw)"
  have "consistent (L @ [?ev]) (emit ?ev (set_thread i (InWrite got) (bw\<lparr>bw_queue := q\<rparr>)))"
    using assms(1) got_batch(1,2,3)
    by (auto simp: consistent_def writing_update_start)
  with got_batch(4) assms(2) show ?thesis by auto
next
  case (written i got)
  let ?ev = "WriteDone (bw_message bw) got (bw_delete bw) None"
  have w: "mset (writing ((bw_threads bw)[i := AtLoopTest])) + {#got#} = mset (writing (bw_threads bw))"
    using written(1,2) by (intro writing_update_end) simp_all
  have "consistent (L @ [?ev])
          (set_thread i AtLoopTest
             ((emit ?ev bw)\<lparr>bw_items_done := bw_items_done bw + int (length got)\<rparr>))"
    using assms(1) w[symmetric] by (auto simp: consistent_def)
  with written(4) assms(2) show ?thesis by auto
next
  case (failed i got err)
  let ?ev = "WriteDone (bw_message bw) got (bw_delete bw) (Some err)"
  have w: "mset (writing ((bw_threads bw)[i := Finished])) + {#got#} = mset (writing (bw_threads bw))"
    using failed(1,2) by (intro writing_update_end) simp_all
  have "consistent (L @ [?ev])
          (set_thread i Finished
             (if worker_catches err then append_error err (emit ?ev bw) else emit ?ev bw))"
    using assms(1) w[symmetric] by (auto simp: consistent_def)
  with failed(4) assms(2) show ?thesis by auto
next
  case (timed_out i)
  have "consistent L (set_thread i Finished (append_error (Exn Empty []) bw))"
    using assms(1) timed_out(1,2)
    by (auto simp: consistent_def writing_update_same)
  with timed_out(4) assms(2) show ?thesis by auto
qed

lemma bw_inv_do_action: "bw_inv L0 bw \<Longrightarrow> bw_inv L0 (do_action e a bw)"
  unfolding bw_inv_def using consistent_do_action by blast

section \<open>What the workers change\<close>

lemma full_errors_simps [simp]:
  "full_errors [] = 0" "full_errors (errs @ errs') = full_errors errs + full_errors errs'"
  "full_errors [err] = (if exn_class err = Full then 1 else 0)"
  by (simp_all add: full_errors_def)

lemma sentinel_puts_simps [simp]:
  "sentinel_puts [] = 0" "sentinel_puts (L @ L') = sentinel_puts L + sentinel_puts L'"
  by (simp_all add: sentinel_puts_def)

lemma worked_refl [simp]: "worked bw bw"
  unfolding worked_def
  by (auto intro: exI[of _ "[]"] exI[of _ "0::nat"])

lemma worked_trans:
  assumes "worked bw bw'" "worked bw' bw''"
  shows "worked bw bw''"
proof -
  from assms(1) obtain errs k L where
    1: "bw_message bw' = bw_message bw" "bw_delete bw' = bw_delete bw"
       "length (bw_threads bw') = length (bw_threads bw)"
       "bw_errors bw' = bw_errors bw @ errs" "full_errors errs = 0"
       "bw_queue bw' = drop k (bw_queue bw)"
       "bw_log bw' = bw_log bw @ L" "list_all is_write L"
       "\<forall>j < length (bw_threads bw). bw_threads bw ! j = Finished \<longrightarrow> bw_threads bw' ! j = Finished"
    unfolding worked_def by blast
  from assms(2) obtain errs' k' L' where
    2: "bw_message bw'' = bw_message bw'" "bw_delete bw'' = bw_delete bw'"
       "length (bw_threads bw'') = length (bw_threads bw')"
       "bw_errors bw'' = bw_errors bw' @ errs'" "full_errors errs' = 0"
       "bw_queue bw'' = drop k' (bw_queue bw')"
       "bw_log bw'' = bw_log bw' @ L'" "list_all is_write L'"
       "\<forall>j < length (bw_threads bw'). bw_threads bw' ! j = Finished \<longrightarrow> bw_threads bw'' ! j = Finished"
    unfolding worked_def by blast
  have e: "bw_errors bw'' = bw_errors bw @ (errs @ errs') \<and> full_errors (errs @ errs') = 0"
    using 1 2 by simp
  have q: "bw_queue bw'' = drop (k' + k) (bw_queue bw)"
    using 1 2 by simp
  have l: "bw_log bw'' = bw_log bw @ (L @ L') \<and> list_all is_write (L @ L')"
    using 1 2 by simp
  have f: "\<forall>j < length (bw_threads bw). bw_threads bw ! j = Finished \<longrightarrow> bw_threads bw'' ! j = Finished"
    using 1(3,9) 2(9) by simp
  show ?thesis
    unfolding worked_def using 1(1,2,3) 2(1,2,3) e q l f by (intro conjI) (simp, simp, simp, blast+)
qed

lemma worked_do_action: "worked bw (do_action e a bw)"
proof (cases e a bw rule: do_action_cases)
  case idle
  then show ?thesis by simp
next
  case (tested i w)
  then show ?thesis
    unfolding worked_def
    by (auto intro: exI[of _ "[]"] exI[of _ "0::nat"] simp: nth_list_update)
next
  case (got_sentinel i q)
  then show ?thesis
    unfolding worked_def
    by (auto intro: exI[of _ "[]"] exI[of _ "Suc 0"] simp: nth_list_update)
next
  case (got_batch i q got)
  have "bw_queue (do_action e a bw) = drop (Suc 0) (bw_queue bw)"
    using got_batch by simp
  moreover have "bw_log (do_action e a bw)
      = bw_log bw @ [WriteIssued (bw_message bw) got (bw_delete bw)]"
    using got_batch by simp
  moreover have "bw_errors (do_action e a bw) = bw_errors bw @ []"
    using got_batch by simp
  ultimately show ?thesis
    unfolding worked_def using got_batch(1,2,4)
    by (intro conjI exI[of _ "[]::exn list"] exI[of _ "Suc 0"]
          exI[of _ "[WriteIssued (bw_message bw) got (bw_delete bw)]"])
       (auto simp: nth_list_update)
next
  case (written i got)
  then show ?thesis
    unfolding worked_def
    by (intro conjI exI[of _ "[]::exn list"] exI[of _ "0::nat"]
          exI[of _ "[WriteDone (bw_message bw) got (bw_delete bw) None]"])
       (auto simp: nth_list_update)
next
  case (failed i got err)
  show ?thesis
  proof (cases "worker_catches err")
    case True
    then have "exn_class err \<noteq> Full" by (auto simp: worker_catches_def)
    with failed True show ?thesis
      unfolding worked_def
      by (intro conjI exI[of _ "[err]"] exI[of _ "0::nat"]
            exI[of _ "[WriteDone (bw_message bw) got (bw_delete bw) (Some err)]"])
         (auto simp: nth_list_update)
  next
    case False
    with failed show ?thesis
      unfolding worked_def
      by (intro conjI exI[of _ "[]::exn list"] exI[of _ "0::nat"]
            exI[of _ "[WriteDone (bw_message bw) got (bw_delete bw) (Some err)]"])
         (auto simp: nth_list_update)
  qed
next
  case (timed_out i)
  then show ?thesis
    unfolding worked_def
    by (intro conjI exI[of _ "[Exn Empty []]"] exI[of _ "0::nat"] exI[of _ "[]::event list"])
       (auto simp: nth_list_update)
qed

lemma worked_fold: "worked bw (fold (do_action e) acts bw)"
proof (induction acts arbitrary: bw)
  case Nil
  show ?case by simp
next
  case (Cons a acts)
  have "worked bw (do_action e a bw)" by (rule worked_do_action)
  moreover have "worked (do_action e a bw) (fold (do_action e) acts (do_action e a bw))"
    by (rule Cons.IH)
  ultimately show ?case by (simp add: worked_trans)
qed

lemma worked_sched [simp]: "worked bw (bw'\<lparr>bw_sched := s\<rparr>) = worked bw bw'"
  by (simp add: worked_def)

lemma worked_sched_left [simp]: "worked (bw\<lparr>bw_sched := s\<rparr>) bw' = worked bw bw'"
  by (simp add: worked_def)

lemma worked_others_run: "worked bw (others_run e bw)"
proof (cases "bw_sched bw")
  case Nil
  then show ?thesis by (simp add: others_run_def)
next
  case (Cons acts rest)
  have "worked (bw\<lparr>bw_sched := rest\<rparr>) (fold (do_action e) acts (bw\<lparr>bw_sched := rest\<rparr>))"
    by (rule worked_fold)
  with Cons show ?thesis by (simp add: others_run_def)
qed

lemma bw_inv_sched [simp]: "bw_inv L0 (bw\<lparr>bw_sched := s\<rparr>) = bw_inv L0 bw"
  by (simp add: bw_inv_def consistent_def)

lemma bw_inv_fold: "bw_inv L0 bw \<Longrightarrow> bw_inv L0 (fold (do_action e) acts bw)"
  by (induction acts arbitrary: bw) (simp_all add: bw_inv_do_action)

lemma bw_inv_others_run: "bw_inv L0 bw \<Longrightarrow> bw_inv L0 (others_run e bw)"
  by (cases "bw_sched bw") (simp_all add: others_run_def bw_inv_fold)

section \<open>Joining the workers\<close>

lemma worked_run_worker: "worked bw (run_worker e i bw)"
proof (induction e i bw rule: run_worker.induct)
  case (1 e i bw)
  show ?case
  proof (cases "i < length (bw_threads bw) \<and> bw_threads bw ! i \<noteq> Finished")
    case True
    have "worked bw (do_action e (next_action i bw) bw)" by (rule worked_do_action)
    moreover have "worked (do_action e (next_action i bw) bw)
                     (run_worker e i (do_action e (next_action i bw) bw))"
      using True by (rule "1.IH")
    ultimately have "worked bw (run_worker e i (do_action e (next_action i bw) bw))"
      by (rule worked_trans)
    with True show ?thesis by (subst run_worker.simps) simp
  next
    case False
    then show ?thesis by (subst run_worker.simps) auto
  qed
qed

lemma bw_inv_run_worker: "bw_inv L0 bw \<Longrightarrow> bw_inv L0 (run_worker e i bw)"
proof (induction e i bw rule: run_worker.induct)
  case (1 e i bw)
  show ?case
  proof (cases "i < length (bw_threads bw) \<and> bw_threads bw ! i \<noteq> Finished")
    case True
    have "bw_inv L0 (do_action e (next_action i bw) bw)"
      using "1.prems" by (rule bw_inv_do_action)
    with True have "bw_inv L0 (run_worker e i (do_action e (next_action i bw) bw))"
      by (rule "1.IH")
    with True show ?thesis by (subst run_worker.simps) simp
  next
    case False
    with "1.prems" show ?thesis by (subst run_worker.simps) auto
  qed
qed

lemma run_worker_finished:
  "i < length (bw_threads bw) \<Longrightarrow> bw_threads (run_worker e i bw) ! i = Finished"
proof (induction e i bw rule: run_worker.induct)
  case (1 e i bw)
  show ?case
  proof (cases "bw_threads bw ! i = Finished")
    case True
    then show ?thesis by (subst run_worker.simps) simp
  next
    case False
    have "worked bw (do_action e (next_action i bw) bw)" by (rule worked_do_action)
    then have "i < length (bw_threads (do_action e (next_action i bw) bw))"
      using "1.prems" by (simp add: worked_def)
    with "1.IH" "1.prems" False
    have "bw_threads (run_worker e i (do_action e (next_action i bw) bw)) ! i = Finished"
      by simp
    with "1.prems" False show ?thesis by (subst run_worker.simps) simp
  qed
qed

lemma worked_run_workers: "worked bw (run_workers e is bw)"
proof (induction "is" arbitrary: bw)
  case Nil
  show ?case by simp
next
  case (Cons i "is")
  have "worked bw (run_worker e i bw)" by (rule worked_run_worker)
  moreover have "worked (run_worker e i bw) (run_workers e is (run_worker e i bw))"
    by (rule Cons.IH)
  ultimately show ?case by (simp add: worked_trans)
qed

lemma bw_inv_run_workers: "bw_inv L0 bw \<Longrightarrow> bw_inv L0 (run_workers e is bw)"
  by (induction "is" arbitrary: bw) (simp_all add: bw_inv_run_worker)

lemma run_workers_finished:
  "i \<in> set is \<Longrightarrow> i < length (bw_threads bw) \<Longrightarrow>
     bw_threads (run_workers e is bw) ! i = Finished"
proof (induction "is" arbitrary: bw)
  case Nil
  then show ?case by simp
next
  case (Cons j js)
  have len: "length (bw_threads (run_worker e j bw)) = length (bw_threads bw)"
    using worked_run_worker[of bw e j] by (simp add: worked_def)
  show ?case
  proof (cases "i \<in> set js")
    case True
    with Cons.IH[of "run_worker e j bw"] Cons.prems len show ?thesis by simp
  next
    case False
    with Cons.prems have ij: "i = j" by simp
    then have f: "bw_threads (run_worker e j bw) ! i = Finished"
      using Cons.prems by (simp add: run_worker_finished)
    have "worked (run_worker e j bw) (run_workers e js (run_worker e j bw))"
      by (rule worked_run_workers)
    with f Cons.prems len show ?thesis by (simp add: worked_def)
  qed
qed

text \<open>After the joins every worker has finished, whatever the schedule was.\<close>

lemma join_threads_worked:
  "\<exists>bw'. worked bw bw' \<and> list_all (\<lambda>w. w = Finished) (bw_threads bw')
         \<and> (bw_inv L0 bw \<longrightarrow> bw_inv L0 bw')
         \<and> join_threads e bw = emit (Joined (bw_message bw)) bw'"
proof -
  let ?bw1 = "others_run e bw"
  let ?bw2 = "run_workers e [0 ..< length (bw_threads ?bw1)] ?bw1"
  have w1: "worked bw ?bw1" by (rule worked_others_run)
  have w2: "worked ?bw1 ?bw2" by (rule worked_run_workers)
  have w: "worked bw ?bw2" using w1 w2 by (rule worked_trans)
  have len: "length (bw_threads ?bw2) = length (bw_threads ?bw1)"
    using w2 by (simp add: worked_def)
  have "\<forall>i < length (bw_threads ?bw2). bw_threads ?bw2 ! i = Finished"
    using len by (simp add: run_workers_finished)
  then have fin: "list_all (\<lambda>w. w = Finished) (bw_threads ?bw2)"
    by (simp add: list_all_length)
  have inv: "bw_inv L0 bw \<longrightarrow> bw_inv L0 ?bw2"
    by (simp add: bw_inv_others_run bw_inv_run_workers)
  have msg: "bw_message ?bw2 = bw_message bw" using w by (simp add: worked_def)
  have "join_threads e bw = emit (Joined (bw_message bw)) ?bw2"
    by (simp add: join_threads_def Let_def msg)
  with w fin inv show ?thesis by blast
qed

section \<open>The steps of the owning thread\<close>

lemma grown_refl [simp]: "grown bw bw"
  unfolding grown_def by auto

lemma grown_trans:
  assumes "grown bw bw'" "grown bw' bw''"
  shows "grown bw bw''"
proof -
  from assms(1) obtain errs L where
    1: "bw_message bw' = bw_message bw" "bw_delete bw' = bw_delete bw"
       "length (bw_threads bw') = length (bw_threads bw)"
       "bw_errors bw' = bw_errors bw @ errs" "bw_log bw' = bw_log bw @ L"
       "\<forall>j < length (bw_threads bw). bw_threads bw ! j = Finished \<longrightarrow> bw_threads bw' ! j = Finished"
    unfolding grown_def by blast
  from assms(2) obtain errs' L' where
    2: "bw_message bw'' = bw_message bw'" "bw_delete bw'' = bw_delete bw'"
       "length (bw_threads bw'') = length (bw_threads bw')"
       "bw_errors bw'' = bw_errors bw' @ errs'" "bw_log bw'' = bw_log bw' @ L'"
       "\<forall>j < length (bw_threads bw'). bw_threads bw' ! j = Finished \<longrightarrow> bw_threads bw'' ! j = Finished"
    unfolding grown_def by blast
  have e: "bw_errors bw'' = bw_errors bw @ (errs @ errs')" using 1 2 by simp
  have l: "bw_log bw'' = bw_log bw @ (L @ L')" using 1 2 by simp
  have f: "\<forall>j < length (bw_threads bw). bw_threads bw ! j = Finished \<longrightarrow> bw_threads bw'' ! j = Finished"
    using 1(3,6) 2(6) by simp
  show ?thesis
    unfolding grown_def using 1(1,2,3) 2(1,2,3) e l f by (intro conjI) (simp, simp, simp, blast+)
qed

lemma worked_grown: "worked bw bw' \<Longrightarrow> grown bw bw'"
  unfolding worked_def grown_def by blast

lemma grown_emit: "grown bw bw' \<Longrightarrow> grown bw (emit ev bw')"
  unfolding grown_def by auto

lemma grown_append_error: "grown bw bw' \<Longrightarrow> grown bw (append_error err bw')"
  unfolding grown_def by auto

lemma grown_queue: "grown bw bw' \<Longrightarrow> grown bw (bw'\<lparr>bw_queue := q\<rparr>)"
  unfolding grown_def by auto

lemma grown_adjust_total: "grown bw bw' \<Longrightarrow> grown bw (adjust_total k bw')"
  unfolding grown_def by auto

lemma grown_errors_Nil: "grown bw bw' \<Longrightarrow> bw_errors bw' = [] \<Longrightarrow> bw_errors bw = []"
  unfolding grown_def by auto

text \<open>Sentinels and batches in the queue.\<close>

lemma fifo_no_sentinel: "Sentinel \<notin> set q \<Longrightarrow> fifo q"
proof (induction q)
  case Nil
  show ?case by simp
next
  case (Cons x q)
  then show ?case by (cases x) simp_all
qed

lemma fifo_all_sentinel: "list_all (\<lambda>x. x = Sentinel) q \<Longrightarrow> fifo q"
proof (induction q)
  case Nil
  show ?case by simp
next
  case (Cons x q)
  then show ?case by (cases x) simp_all
qed

lemma fifo_tl: "fifo (x # q) \<Longrightarrow> fifo q"
  by (cases x) (simp_all add: fifo_all_sentinel)

lemma fifo_drop: "fifo q \<Longrightarrow> fifo (drop k q)"
proof (induction k arbitrary: q)
  case 0
  then show ?case by simp
next
  case (Suc k)
  show ?case
  proof (cases q)
    case Nil
    then show ?thesis by simp
  next
    case (Cons x q')
    with Suc.prems have "fifo q'" by (simp add: fifo_tl)
    with Suc.IH Cons show ?thesis by simp
  qed
qed

lemma fifo_append_sentinel: "fifo q \<Longrightarrow> fifo (q @ [Sentinel])"
proof (induction q)
  case Nil
  show ?case by simp
next
  case (Cons x q)
  then show ?case by (cases x) simp_all
qed

lemma all_sentinel_queued: "list_all (\<lambda>x. x = Sentinel) q \<Longrightarrow> queued q = []"
  by (induction q) auto

lemma fifo_queued: "fifo q \<Longrightarrow> queued q \<noteq> [] \<longleftrightarrow> (\<exists>b q'. q = Batch b # q')"
proof (induction q)
  case Nil
  show ?case by simp
next
  case (Cons x q)
  show ?case
  proof (cases x)
    case (Batch b)
    then show ?thesis by simp
  next
    case Sentinel
    with Cons.prems have "queued q = []" by (simp add: all_sentinel_queued)
    with Sentinel show ?thesis by simp
  qed
qed

text \<open>The events of the owner keep the events and the state in agreement.\<close>

lemma bw_inv_emit:
  assumes "bw_inv L0 bw" "ev_msg ev = Some (bw_message bw)" "put_batch ev = []"
    "issued_batch ev = []" "done_batch ev = []" "\<not> caught_failure ev" "ev_delete ev = None"
  shows "bw_inv L0 (emit ev bw)"
proof -
  from assms(1) obtain L where L: "bw_log bw = L0 @ L" "consistent L bw"
    unfolding bw_inv_def by blast
  have "consistent (L @ [ev]) (emit ev bw)"
    using L(2) assms(2-7) by (simp add: consistent_def)
  with L(1) show ?thesis unfolding bw_inv_def by auto
qed

lemma bw_inv_put:
  assumes "bw_inv L0 bw"
  shows "bw_inv L0 (emit (Put (bw_message bw) x) (bw\<lparr>bw_queue := bw_queue bw @ [x]\<rparr>))"
proof -
  from assms obtain L where L: "bw_log bw = L0 @ L" "consistent L bw"
    unfolding bw_inv_def by blast
  have "consistent (L @ [Put (bw_message bw) x])
          (emit (Put (bw_message bw) x) (bw\<lparr>bw_queue := bw_queue bw @ [x]\<rparr>))"
    using L(2) by (cases x) (simp_all add: consistent_def)
  with L(1) show ?thesis unfolding bw_inv_def by auto
qed

lemma bw_inv_append_error: "bw_inv L0 bw \<Longrightarrow> bw_inv L0 (append_error err bw)"
  unfolding bw_inv_def consistent_def by auto

lemma bw_inv_adjust_total: "bw_inv L0 bw \<Longrightarrow> bw_inv L0 (adjust_total k bw)"
  unfolding bw_inv_def consistent_def by auto

text \<open>\<^verbatim>\<open>queue.put\<close> either raises \<open>Full\<close> or appends the entry, after the workers ran.\<close>

lemma queue_put_cases [case_names full put]:
  obtains
    (full) bw1 where "worked bw bw1" "bw_inv L0 bw \<longrightarrow> bw_inv L0 bw1"
      "queue_put st e x bw = (Raise (Exn Full []), bw1)"
  | (put) bw1 where "worked bw bw1" "bw_inv L0 bw \<longrightarrow> bw_inv L0 bw1"
      "queue_put st e x bw
         = (Ok (), emit (Put (bw_message bw) x) (bw1\<lparr>bw_queue := bw_queue bw1 @ [x]\<rparr>))"
proof (cases "queue_full st (others_run e bw)")
  case True
  then have "queue_put st e x bw = (Raise (Exn Full []), others_run e bw)"
    by (simp add: queue_put_def Let_def)
  then show ?thesis
    using worked_others_run[of bw e] bw_inv_others_run[of L0 bw e] by (intro full) auto
next
  case False
  have "bw_message (others_run e bw) = bw_message bw"
    using worked_others_run[of bw e] by (simp add: worked_def)
  with False have "queue_put st e x bw
      = (Ok (), emit (Put (bw_message bw) x)
                  ((others_run e bw)\<lparr>bw_queue := bw_queue (others_run e bw) @ [x]\<rparr>))"
    by (simp add: queue_put_def Let_def)
  then show ?thesis
    using worked_others_run[of bw e] bw_inv_others_run[of L0 bw e] by (intro put) auto
qed

section \<open>Queueing batches\<close>

lemma is_write_puts: "list_all is_write L \<Longrightarrow> puts_of L = [] \<and> sentinel_puts L = 0"
proof (induction L)
  case Nil
  show ?case by simp
next
  case (Cons ev L)
  then have "puts_of L = [] \<and> sentinel_puts L = 0" by simp
  moreover from Cons.prems have "is_write ev" by simp
  then have "put_batch ev = [] \<and> sentinel_puts [ev] = 0"
    by (cases ev) (simp_all add: sentinel_puts_def)
  ultimately show ?case
    using puts_of_append[of "[ev]" L] sentinel_puts_simps(2)[of "[ev]" L] by simp
qed

lemma worked_puts:
  assumes "worked bw bw'"
  obtains L where "bw_log bw' = bw_log bw @ L" "puts_of L = []" "sentinel_puts L = 0"
  using assms is_write_puts unfolding worked_def by blast

lemma worked_no_sentinel:
  "worked bw bw' \<Longrightarrow> Sentinel \<notin> set (bw_queue bw) \<Longrightarrow> Sentinel \<notin> set (bw_queue bw')"
  unfolding worked_def by (auto dest: in_set_dropD)

lemma worked_fifo: "worked bw bw' \<Longrightarrow> fifo (bw_queue bw) \<Longrightarrow> fifo (bw_queue bw')"
  unfolding worked_def by (auto simp: fifo_drop)

lemma queue_batches_loop_summary:
  assumes "queue_batches_loop st e batches queued0 bw = (queued', bw')"
  shows "grown bw bw'
     \<and> (bw_inv L0 bw \<longrightarrow> bw_inv L0 bw')
     \<and> (Sentinel \<notin> set (bw_queue bw) \<longrightarrow> Sentinel \<notin> set (bw_queue bw'))
     \<and> (bw_errors bw' = [] \<longrightarrow>
          (\<exists>L. bw_log bw' = bw_log bw @ L \<and> puts_of L = batches)
          \<and> queued' = queued0 @ concat (map (map item_id) batches))"
  using assms
proof (induction batches arbitrary: queued0 bw)
  case Nil
  then show ?case by auto
next
  case (Cons batch rest)
  let ?bw0 = "others_run e bw"
  have w0: "worked bw ?bw0" by (rule worked_others_run)
  have inv0: "bw_inv L0 bw \<longrightarrow> bw_inv L0 ?bw0" by (simp add: bw_inv_others_run)
  show ?case
  proof (cases "bw_errors ?bw0 = []")
    case False
    with Cons.prems have run: "queue_batches_loop st e rest queued0 ?bw0 = (queued', bw')"
      by (simp add: Let_def)
    note ih = Cons.IH[OF run]
    have g: "grown bw bw'" using worked_grown[OF w0] ih by (blast intro: grown_trans)
    have "bw_errors bw' \<noteq> []" using ih False by (auto dest: grown_errors_Nil)
    with g inv0 ih worked_no_sentinel[OF w0] show ?thesis by auto
  next
    case True
    show ?thesis
    proof (cases rule: queue_put_cases[where bw = ?bw0 and ?L0.0 = L0 and st = st and e = e
                                          and x = "Batch batch"])
      case (full bw1)
      with Cons.prems True
      have run: "queue_batches_loop st e rest queued0 (append_error (Exn Full []) bw1)
                   = (queued', bw')"
        by (simp add: Let_def)
      note ih = Cons.IH[OF run]
      have w1: "worked bw bw1" using w0 full(1) by (rule worked_trans)
      have g1: "grown bw (append_error (Exn Full []) bw1)"
        using worked_grown[OF w1] by (rule grown_append_error)
      have g: "grown bw bw'" using g1 ih by (blast intro: grown_trans)
      have "bw_errors bw' \<noteq> []" using ih by (auto dest: grown_errors_Nil)
      moreover have "bw_inv L0 bw \<longrightarrow> bw_inv L0 bw'"
        using inv0 full(2) ih by (auto simp: bw_inv_append_error)
      moreover have "Sentinel \<notin> set (bw_queue bw) \<longrightarrow> Sentinel \<notin> set (bw_queue bw')"
        using worked_no_sentinel[OF w1] ih by auto
      ultimately show ?thesis using g by auto
    next
      case (put bw1)
      let ?bw2 = "emit (Put (bw_message ?bw0) (Batch batch))
                    (bw1\<lparr>bw_queue := bw_queue bw1 @ [Batch batch]\<rparr>)"
      from put Cons.prems True
      have run: "queue_batches_loop st e rest (queued0 @ map item_id batch) ?bw2 = (queued', bw')"
        by (simp add: Let_def)
      note ih = Cons.IH[OF run]
      have w1: "worked bw bw1" using w0 put(1) by (rule worked_trans)
      have m1: "bw_message bw1 = bw_message ?bw0" using put(1) by (simp add: worked_def)
      have g2: "grown bw ?bw2"
        using worked_grown[OF w1] by (intro grown_emit grown_queue)
      have g: "grown bw bw'" using g2 ih by (blast intro: grown_trans)
      have inv: "bw_inv L0 bw \<longrightarrow> bw_inv L0 bw'"
        using inv0 put(2) ih bw_inv_put[of L0 bw1 "Batch batch"] m1 by auto
      have ns: "Sentinel \<notin> set (bw_queue bw) \<longrightarrow> Sentinel \<notin> set (bw_queue bw')"
        using worked_no_sentinel[OF w1] ih by auto
      have al: "bw_errors bw' = [] \<longrightarrow>
          (\<exists>L. bw_log bw' = bw_log bw @ L \<and> puts_of L = batch # rest)
          \<and> queued' = queued0 @ concat (map (map item_id) (batch # rest))"
      proof
        assume "bw_errors bw' = []"
        with ih obtain L2 where L2: "bw_log bw' = bw_log ?bw2 @ L2" "puts_of L2 = rest"
          and q: "queued' = (queued0 @ map item_id batch) @ concat (map (map item_id) rest)"
          by blast
        from w1 obtain L1 where L1: "bw_log bw1 = bw_log bw @ L1" "puts_of L1 = []"
          by (rule worked_puts)
        have "bw_log bw' = bw_log bw @ (L1 @ [Put (bw_message ?bw0) (Batch batch)] @ L2)"
          using L1(1) L2(1) by simp
        moreover have "puts_of (L1 @ [Put (bw_message ?bw0) (Batch batch)] @ L2) = batch # rest"
          using L1(2) L2(2) by simp
        ultimately show "(\<exists>L. bw_log bw' = bw_log bw @ L \<and> puts_of L = batch # rest)
          \<and> queued' = queued0 @ concat (map (map item_id) (batch # rest))"
          using q by auto
      qed
      show ?thesis using g inv ns al by blast
    qed
  qed
qed

lemma queue_batches_summary:
  assumes "queue_batches st e items bw = (queued', bw')"
  shows "grown bw bw'
     \<and> (bw_inv L0 bw \<longrightarrow> bw_inv L0 bw')
     \<and> (Sentinel \<notin> set (bw_queue bw) \<longrightarrow> Sentinel \<notin> set (bw_queue bw'))
     \<and> (bw_errors bw' = [] \<longrightarrow>
          (\<exists>L. bw_log bw' = bw_log bw @ L \<and> puts_of L = get_batches e items)
          \<and> queued' = concat (map (map item_id) (get_batches e items)))"
  using queue_batches_loop_summary[of st e "get_batches e items" "[]" bw queued' bw' L0] assms
  by (simp add: queue_batches_def)

section \<open>Stopping a writer\<close>

lemma worked_counts:
  assumes "worked bw bw'"
  shows "full_errors (bw_errors bw') = full_errors (bw_errors bw)"
    and "sentinel_puts (bw_log bw') = sentinel_puts (bw_log bw)"
proof -
  from assms obtain errs where "bw_errors bw' = bw_errors bw @ errs" "full_errors errs = 0"
    unfolding worked_def by blast
  then show "full_errors (bw_errors bw') = full_errors (bw_errors bw)" by simp
  from assms obtain L where "bw_log bw' = bw_log bw @ L" "sentinel_puts L = 0"
    by (rule worked_puts)
  then show "sentinel_puts (bw_log bw') = sentinel_puts (bw_log bw)" by simp
qed

lemma sentinel_puts_single [simp]:
  "sentinel_puts [Put m Sentinel] = 1" "sentinel_puts [Put m (Batch b)] = 0"
  by (simp_all add: sentinel_puts_def)

lemma put_sentinels_summary:
  "grown bw (put_sentinels st e n bw)
   \<and> (bw_inv L0 bw \<longrightarrow> bw_inv L0 (put_sentinels st e n bw))
   \<and> (fifo (bw_queue bw) \<longrightarrow> fifo (bw_queue (put_sentinels st e n bw)))
   \<and> sentinel_puts (bw_log (put_sentinels st e n bw))
       + full_errors (bw_errors (put_sentinels st e n bw))
     = sentinel_puts (bw_log bw) + full_errors (bw_errors bw) + n"
proof (induction n arbitrary: bw)
  case 0
  show ?case by simp
next
  case (Suc n)
  show ?case
  proof (cases rule: queue_put_cases[where bw = bw and ?L0.0 = L0 and st = st and e = e
                                        and x = Sentinel])
    case (full bw1)
    let ?bw2 = "append_error (Exn Full []) bw1"
    from full have run: "put_sentinels st e (Suc n) bw = put_sentinels st e n ?bw2" by simp
    note ih = Suc.IH[of ?bw2]
    have g: "grown bw ?bw2" using worked_grown[OF full(1)] by (rule grown_append_error)
    have c: "sentinel_puts (bw_log ?bw2) + full_errors (bw_errors ?bw2)
               = sentinel_puts (bw_log bw) + full_errors (bw_errors bw) + 1"
      using worked_counts[OF full(1)] by simp
    have "grown bw (put_sentinels st e n ?bw2)" using g ih by (blast intro: grown_trans)
    moreover have "bw_inv L0 bw \<longrightarrow> bw_inv L0 (put_sentinels st e n ?bw2)"
      using full(2) ih by (auto simp: bw_inv_append_error)
    moreover have "fifo (bw_queue bw) \<longrightarrow> fifo (bw_queue (put_sentinels st e n ?bw2))"
      using worked_fifo[OF full(1)] ih by auto
    ultimately show ?thesis unfolding run using ih c by simp
  next
    case (put bw1)
    let ?bw2 = "emit (Put (bw_message bw) Sentinel) (bw1\<lparr>bw_queue := bw_queue bw1 @ [Sentinel]\<rparr>)"
    from put have run: "put_sentinels st e (Suc n) bw = put_sentinels st e n ?bw2" by simp
    note ih = Suc.IH[of ?bw2]
    have m1: "bw_message bw1 = bw_message bw" using put(1) by (simp add: worked_def)
    have g: "grown bw ?bw2" using worked_grown[OF put(1)] by (intro grown_emit grown_queue)
    have c: "sentinel_puts (bw_log ?bw2) + full_errors (bw_errors ?bw2)
               = sentinel_puts (bw_log bw) + full_errors (bw_errors bw) + 1"
      using worked_counts[OF put(1)] by simp
    have "grown bw (put_sentinels st e n ?bw2)" using g ih by (blast intro: grown_trans)
    moreover have "bw_inv L0 bw \<longrightarrow> bw_inv L0 (put_sentinels st e n ?bw2)"
      using put(2) ih bw_inv_put[of L0 bw1 Sentinel] m1 by auto
    moreover have "fifo (bw_queue bw) \<longrightarrow> fifo (bw_queue (put_sentinels st e n ?bw2))"
      using worked_fifo[OF put(1)] ih by (auto simp: fifo_append_sentinel)
    ultimately show ?thesis unfolding run using ih c by simp
  qed
qed

lemma check_queue_fields [simp]:
  "bw_log (check_queue bw) = bw_log bw"
  "bw_message (check_queue bw) = bw_message bw"
  "bw_delete (check_queue bw) = bw_delete bw"
  "bw_threads (check_queue bw) = bw_threads bw"
  "bw_sched (check_queue bw) = bw_sched bw"
  by (simp_all add: check_queue_def split: list.splits)

text \<open>When the sentinels come after the batches, the test of the first entry finds every
  batch left in the queue.\<close>

lemma check_queue_errors:
  "fifo (bw_queue bw) \<Longrightarrow>
     bw_errors (check_queue bw)
       = bw_errors bw @
           (if queued (bw_queue bw) \<noteq> []
            then [Exn RuntimeError ''Commit incomplete, queue not empty''] else [])"
proof (cases "bw_queue bw")
  case Nil
  then show ?thesis by (simp add: check_queue_def)
next
  case (Cons x q)
  assume "fifo (bw_queue bw)"
  with Cons show ?thesis
    by (cases x) (simp_all add: check_queue_def all_sentinel_queued)
qed

lemma finished_writing: "list_all (\<lambda>w. w = Finished) ths \<Longrightarrow> writing ths = []"
  by (induction ths) auto

lemma grown_check_queue: "grown bw (check_queue bw)"
  unfolding grown_def by (auto simp: check_queue_def append_error_def split: list.splits)

lemma raise_first_emit [simp]: "raise_first (emit ev bw) = raise_first bw"
  by (simp add: raise_first_def)

lemma raise_first_Ok: "raise_first bw = Ok () \<longleftrightarrow> bw_errors bw = []"
  by (simp add: raise_first_def split: list.splits)

lemma raise_first_Raise: "raise_first bw = Raise err \<longleftrightarrow> (\<exists>errs. bw_errors bw = err # errs)"
  by (simp add: raise_first_def split: list.splits)

text \<open>
  What \<^verbatim>\<open>stop\<close> leaves behind, for a writer whose events agree with its state and whose
  queue has its sentinels last: the events since \<open>L0\<close> are the writer's own and end with the
  join and the exit; every call of \<^verbatim>\<open>write_batch\<close> has ended; and when no error is
  recorded, every batch put was handed to \<^verbatim>\<open>write_batch\<close> and no call ended with an
  exception the worker loop catches.
\<close>

lemma stop_summary:
  assumes inv: "bw_inv L0 bw" and ff: "fifo (bw_queue bw)"
  obtains Lpre L' where
    "bw_log bw = L0 @ Lpre"
    "bw_log (snd (stop st e bw))
       = L0 @ Lpre @ L'
           @ [Joined (bw_message bw), Exit (bw_message bw) (bw_errors (snd (stop st e bw)))]"
    "list_all (\<lambda>ev. ev_msg ev = Some (bw_message bw)) (Lpre @ L')"
    "list_all (\<lambda>ev. ev_delete ev = None \<or> ev_delete ev = Some (bw_delete bw)) (Lpre @ L')"
    "mset (issued_of (Lpre @ L')) = mset (done_of (Lpre @ L'))"
    "bw_errors (snd (stop st e bw)) = [] \<Longrightarrow>
       mset (puts_of (Lpre @ L')) = mset (issued_of (Lpre @ L'))
       \<and> \<not> list_ex caught_failure (Lpre @ L')"
    "grown bw (snd (stop st e bw))"
    "fst (stop st e bw) = raise_first (snd (stop st e bw))"
    "list_all (\<lambda>w. w = Finished) (bw_threads (snd (stop st e bw)))"
proof -
  let ?bw1 = "put_sentinels st e (length (bw_threads bw)) bw"
  note ps = put_sentinels_summary[of bw st e "length (bw_threads bw)" L0]
  have g1: "grown bw ?bw1" and inv1: "bw_inv L0 ?bw1" and ff1: "fifo (bw_queue ?bw1)"
    using ps inv ff by auto
  obtain bw2 where w2: "worked ?bw1 bw2" and fin: "list_all (\<lambda>w. w = Finished) (bw_threads bw2)"
    and inv2: "bw_inv L0 bw2" and j: "join_threads e ?bw1 = emit (Joined (bw_message ?bw1)) bw2"
    using join_threads_worked[of ?bw1 L0 e] inv1 by blast
  have m1: "bw_message ?bw1 = bw_message bw" and d1: "bw_delete ?bw1 = bw_delete bw"
    using g1 by (simp_all add: grown_def)
  have m2: "bw_message bw2 = bw_message bw" and d2: "bw_delete bw2 = bw_delete bw"
    using w2 m1 d1 by (simp_all add: worked_def)
  have ff2: "fifo (bw_queue bw2)" using w2 ff1 by (rule worked_fifo)
  let ?bwj = "emit (Joined (bw_message bw)) bw2"
  let ?bw3 = "check_queue ?bwj"
  let ?ex = "Exit (bw_message bw) (bw_errors ?bw3)"
  have st: "stop st e bw = (raise_first ?bw3, emit ?ex ?bw3)"
    by (simp add: stop_def Let_def j m1 m2)
  have g2: "grown bw bw2" using g1 worked_grown[OF w2] by (rule grown_trans)
  from inv obtain Lpre where Lpre: "bw_log bw = L0 @ Lpre" unfolding bw_inv_def by blast
  from g2 obtain L' where L': "bw_log bw2 = bw_log bw @ L'" unfolding grown_def by blast
  from inv2 obtain L2 where L2: "bw_log bw2 = L0 @ L2" "consistent L2 bw2"
    unfolding bw_inv_def by blast
  have L2eq: "L2 = Lpre @ L'" using Lpre L' L2(1) by simp
  have c: "consistent (Lpre @ L') bw2" using L2(2) L2eq by simp
  have e3: "bw_errors ?bw3 = bw_errors bw2 @
            (if queued (bw_queue bw2) \<noteq> []
             then [Exn RuntimeError ''Commit incomplete, queue not empty''] else [])"
    using check_queue_errors[of ?bwj] ff2 by simp
  have 1: "bw_log (snd (stop st e bw))
       = L0 @ Lpre @ L'
           @ [Joined (bw_message bw), Exit (bw_message bw) (bw_errors (snd (stop st e bw)))]"
    using st Lpre L' by simp
  have 2: "list_all (\<lambda>ev. ev_msg ev = Some (bw_message bw)) (Lpre @ L')"
    using c m2 by (simp add: consistent_def)
  have 3: "list_all (\<lambda>ev. ev_delete ev = None \<or> ev_delete ev = Some (bw_delete bw)) (Lpre @ L')"
    using c d2 by (simp add: consistent_def)
  have 4: "mset (issued_of (Lpre @ L')) = mset (done_of (Lpre @ L'))"
    using c finished_writing[OF fin] by (simp add: consistent_def)
  have 5: "mset (puts_of (Lpre @ L')) = mset (issued_of (Lpre @ L'))
       \<and> \<not> list_ex caught_failure (Lpre @ L')"
    if "bw_errors (snd (stop st e bw)) = []"
  proof -
    from that st have "bw_errors ?bw3 = []" by simp
    with e3 have "bw_errors bw2 = []" "queued (bw_queue bw2) = []"
      by (auto split: if_splits)
    with c show ?thesis by (simp add: consistent_def)
  qed
  have g3: "grown bw ?bw3"
    using grown_emit[OF g2, of "Joined (bw_message bw)"] grown_check_queue[of ?bwj]
    by (rule grown_trans)
  have 6: "grown bw (snd (stop st e bw))" using st grown_emit[OF g3, of ?ex] by simp
  have 7: "fst (stop st e bw) = raise_first (snd (stop st e bw))" using st by simp
  have 8: "list_all (\<lambda>w. w = Finished) (bw_threads (snd (stop st e bw)))"
    using st fin by simp
  show ?thesis using Lpre 1 2 3 4 5 6 7 8 by (rule that)
qed

section \<open>The writers of the commit\<close>

lemma writing_replicate [simp]: "writing (replicate n AtLoopTest) = []"
  by (induction n) simp_all

lemma enter_fields [simp]:
  "bw_log (enter st n m del lg sch) = lg @ [Enter m]"
  "bw_message (enter st n m del lg sch) = m"
  "bw_delete (enter st n m del lg sch) = del"
  "bw_queue (enter st n m del lg sch) = []"
  "bw_errors (enter st n m del lg sch) = []"
  "bw_sched (enter st n m del lg sch) = sch"
  "bw_threads (enter st n m del lg sch) = replicate (nat (write_max_workers st)) AtLoopTest"
  by (simp_all add: enter_def start_def BatchWriter_init_def emit_def)

lemma bw_inv_enter: "bw_inv lg (enter st n m del lg sch)"
  unfolding bw_inv_def
  by (intro exI[of _ "[Enter m]"]) (simp add: consistent_def)

lemma in_scope_inv:
  "in_scope st e bw \<Longrightarrow> (\<exists>L0. bw_inv L0 bw) \<and> Sentinel \<notin> set (bw_queue bw)"
proof (induction rule: in_scope.induct)
  case (entered n message del lg sch)
  show ?case using bw_inv_enter[of lg st n message del sch] by auto
next
  case (queued_more bw items)
  then obtain L0 where "bw_inv L0 bw" by blast
  with queued_more.IH
    queue_batches_summary[of st e items bw "fst (queue_batches st e items bw)"
      "snd (queue_batches st e items bw)" L0]
  show ?case by auto
next
  case (adjusted bw increment)
  then show ?case using bw_inv_adjust_total by auto
qed

lemma queued_list_ex: "queued q \<noteq> [] \<longleftrightarrow> list_ex (\<lambda>x. x \<noteq> Sentinel) q"
proof (induction q)
  case Nil
  show ?case by simp
next
  case (Cons x q)
  then show ?case by (cases x) simp_all
qed

text \<open>
  C6. \<^verbatim>\<open>stop\<close>, called on a writer inside its \<^verbatim>\<open>with\<close> statement: each of the pushes, one
  for each thread, puts a sentinel or records \<open>Full\<close>; after the joins every worker has
  finished; the error "Commit incomplete, queue not empty" is recorded exactly when the
  queue still holds an entry that is not the sentinel; the errors recorded before stay in
  front; and \<^verbatim>\<open>stop\<close> raises the first recorded error when there is one, and returns
  otherwise.
\<close>

theorem stop_spec:
  assumes "in_scope st e bw"
  shows "let bw1 = put_sentinels st e (length (bw_threads bw)) bw;
             bw2 = join_threads e bw1;
             bw3 = check_queue bw2
         in sentinel_puts (bw_log bw1) + full_errors (bw_errors bw1)
              = sentinel_puts (bw_log bw) + full_errors (bw_errors bw) + length (bw_threads bw)
            \<and> list_all (\<lambda>w. w = Finished) (bw_threads bw2)
            \<and> bw_errors bw3
                = bw_errors bw2 @
                    (if list_ex (\<lambda>x. x \<noteq> Sentinel) (bw_queue bw2)
                     then [Exn RuntimeError ''Commit incomplete, queue not empty''] else [])
            \<and> (\<exists>errs. bw_errors bw3 = bw_errors bw @ errs)
            \<and> stop st e bw
                = ((case bw_errors bw3 of [] \<Rightarrow> Ok () | err # errs \<Rightarrow> Raise err),
                   emit (Exit (bw_message bw3) (bw_errors bw3)) bw3)"
proof -
  let ?bw1 = "put_sentinels st e (length (bw_threads bw)) bw"
  let ?bw2 = "join_threads e ?bw1"
  let ?bw3 = "check_queue ?bw2"
  from assms obtain L0 where inv: "bw_inv L0 bw" and ns: "Sentinel \<notin> set (bw_queue bw)"
    using in_scope_inv by blast
  note ps = put_sentinels_summary[of bw st e "length (bw_threads bw)" L0]
  have ff1: "fifo (bw_queue ?bw1)" using ps ns by (simp add: fifo_no_sentinel)
  have g1: "grown bw ?bw1" using ps by simp
  obtain bw2' where w2: "worked ?bw1 bw2'"
    and fin: "list_all (\<lambda>w. w = Finished) (bw_threads bw2')"
    and j: "?bw2 = emit (Joined (bw_message ?bw1)) bw2'"
    using join_threads_worked[of ?bw1 L0 e] by blast
  have ff2: "fifo (bw_queue ?bw2)" using worked_fifo[OF w2 ff1] j by simp
  have 1: "sentinel_puts (bw_log ?bw1) + full_errors (bw_errors ?bw1)
              = sentinel_puts (bw_log bw) + full_errors (bw_errors bw) + length (bw_threads bw)"
    using ps by simp
  have 2: "list_all (\<lambda>w. w = Finished) (bw_threads ?bw2)" using fin j by simp
  have 3: "bw_errors ?bw3
                = bw_errors ?bw2 @
                    (if list_ex (\<lambda>x. x \<noteq> Sentinel) (bw_queue ?bw2)
                     then [Exn RuntimeError ''Commit incomplete, queue not empty''] else [])"
    using check_queue_errors[OF ff2] by (simp add: queued_list_ex)
  have g3: "grown bw ?bw3"
  proof -
    have "grown ?bw1 ?bw2" using worked_grown[OF w2] j by (simp add: grown_emit)
    with g1 have "grown bw ?bw2" by (rule grown_trans)
    then show ?thesis using grown_check_queue[of ?bw2] by (rule grown_trans)
  qed
  then have 4: "\<exists>errs. bw_errors ?bw3 = bw_errors bw @ errs" by (simp add: grown_def)
  have 5: "stop st e bw
                = ((case bw_errors ?bw3 of [] \<Rightarrow> Ok () | err # errs \<Rightarrow> Raise err),
                   emit (Exit (bw_message ?bw3) (bw_errors ?bw3)) ?bw3)"
    by (simp add: stop_def Let_def raise_first_def)
  show ?thesis unfolding Let_def using 1 2 3 4 5 by blast
qed

theorem stop_spec_witness:
  "in_scope sample_settings sample_env sample_writer
   \<and> list_all (\<lambda>w. w = Finished)
       (bw_threads (join_threads sample_env
          (put_sentinels sample_settings sample_env (length (bw_threads sample_writer))
             sample_writer)))
   \<and> fst (stop sample_settings sample_env sample_writer) = Ok ()"
proof -
  have h: "in_scope sample_settings sample_env sample_writer"
    unfolding sample_writer_def by (intro in_scope.intros)
  have "fst (stop sample_settings sample_env sample_writer) = Ok ()"
    by code_simp
  with h stop_spec[OF h] show ?thesis unfolding Let_def by blast
qed

section \<open>What writing and rolling back leave alone\<close>

lemma same_rows_refl [simp]: "same_rows c c"
  by (simp add: same_rows_def)

lemma same_rows_trans: "same_rows c c' \<Longrightarrow> same_rows c' c'' \<Longrightarrow> same_rows c c''"
  by (simp add: same_rows_def)

lemma same_rows_updates [simp]:
  "same_rows c (c'\<lparr>events := lg\<rparr>) = same_rows c c'"
  "same_rows c (c'\<lparr>sched := sch\<rparr>) = same_rows c c'"
  "same_rows c (c'\<lparr>written_item_ids := ids\<rparr>) = same_rows c c'"
  "same_rows c (c'\<lparr>flush_paths := paths\<rparr>) = same_rows c c'"
  by (simp_all add: same_rows_def)

lemma same_rows_add_flush_paths: "same_rows c c' \<Longrightarrow> same_rows c (add_flush_paths st paths c')"
  by (induction paths arbitrary: c') (simp_all add: Let_def)

lemma same_rows_flush_cache [simp]: "same_rows c (flush_cache st c') = same_rows c c'"
  by (simp add: flush_cache_def)

lemma same_rows_base_write:
  "same_rows c (snd (CommitBase_write_publish_items mode st e c))"
  by (simp add: CommitBase_write_publish_items_def Let_def split: prod.splits)

lemma same_rows_write_final: "same_rows c (snd (write_final_items st e final_items c))"
  by (simp add: write_final_items_def Let_def same_rows_add_flush_paths split: prod.splits)

lemma same_rows_write_publish_items:
  "same_rows c (snd (write_publish_items mode st e c))"
proof (cases mode)
  case phase1
  then show ?thesis
    using same_rows_base_write[of c phase1 st e]
    by (auto split: prod.splits res.splits)
next
  case phase2
  show ?thesis
  proof (cases "CommitBase_write_publish_items phase2 st e c")
    case (Pair r1 c1)
    then have s1: "same_rows c c1" using same_rows_base_write[of c phase2 st e] by simp
    show ?thesis
    proof (cases r1)
      case (Raise err)
      with Pair phase2 s1 show ?thesis by simp
    next
      case (Ok final_items)
      have s2: "same_rows c1 (snd (write_final_items st e final_items c1))"
        by (rule same_rows_write_final)
      with s1 have "same_rows c (snd (write_final_items st e final_items c1))"
        by (rule same_rows_trans)
      with Pair phase2 Ok show ?thesis by (auto split: prod.splits res.splits)
    qed
  qed
qed

lemma same_rows_rollback_loop: "same_rows c (snd (rollback_loop st e batches c))"
proof (induction batches arbitrary: c)
  case Nil
  show ?case by simp
next
  case (Cons item_ids rest)
  let ?bw0 = "enter st (int (length item_ids)) ''Rolling back'' True (events c) (sched c)"
  let ?items = "filter (\<lambda>it. item_id it \<in> set item_ids) (db_items c)"
  obtain queued' bw1 where q: "queue_batches st e ?items ?bw0 = (queued', bw1)"
    by (cases "queue_batches st e ?items ?bw0")
  obtain r bw2 where l: "leave st e (Ok (), bw1) = (r, bw2)"
    by (cases "leave st e (Ok (), bw1)")
  let ?c1 = "c\<lparr>events := bw_log bw2, sched := bw_sched bw2\<rparr>"
  have s1: "same_rows c ?c1" by simp
  show ?case
  proof (cases r)
    case (Raise err)
    with q l show ?thesis by (simp add: Let_def)
  next
    case (Ok u)
    have "same_rows ?c1 (snd (rollback_loop st e rest ?c1))" by (rule Cons.IH)
    with s1 have "same_rows c (snd (rollback_loop st e rest ?c1))" by (rule same_rows_trans)
    with q l Ok show ?thesis by (simp add: Let_def)
  qed
qed

lemma same_rows_rollback:
  "same_rows c (snd (rollback_publish_items mode st e c))"
proof -
  have b: "same_rows c (snd (CommitBase_rollback_publish_items st e c))"
    using same_rows_rollback_loop[of c st e]
    by (simp add: CommitBase_rollback_publish_items_def split: res.splits)
  show ?thesis
  proof (cases mode)
    case phase1
    with b show ?thesis by simp
  next
    case phase2
    with b show ?thesis by (auto split: prod.splits res.splits)
  qed
qed

lemma on_failed_fields [simp]:
  "task_state (on_failed mode c) = Task_failed"
  "publish_state (on_failed mode c)
     = (case mode of phase1 \<Rightarrow> publish_state c | phase2 \<Rightarrow> Publish_failed)"
  "events (on_failed mode c) = events c"
  "db_items (on_failed mode c) = db_items c"
  "written_item_ids (on_failed mode c) = written_item_ids c"
  by (cases mode; simp)+

lemma db_commit_fields [simp]:
  "task_state (db_commit c) = task_state c"
  "publish_state (db_commit c) = publish_state c"
  "events (db_commit c) = events c @ [DBCommit (task_state c) (publish_state c)]"
  "db_items (db_commit c) = db_items c"
  "written_item_ids (db_commit c) = written_item_ids c"
  by (simp_all add: db_commit_def)

text \<open>When \<^verbatim>\<open>on_succeeded\<close> returns, the task is complete, and the publish of a phase 2
  commit is committed; when it raises, it is the \<open>ValueError\<close> of a zero
  \<^verbatim>\<open>item_yield_size\<close>.\<close>

lemma on_succeeded_Ok:
  assumes "on_succeeded mode st e c = (Ok u, c')"
  shows "task_state c' = Task_complete" "events c' = events c"
    "publish_state c' = (case mode of phase1 \<Rightarrow> publish_state c | phase2 \<Rightarrow> Publish_committed)"
  using assms
  by (cases mode;
      auto simp: CommitBase_on_succeeded_def written_item_ids_batched_def Let_def
           split: res.splits prod.splits if_splits)+

lemma on_succeeded_Raise:
  assumes "on_succeeded mode st e c = (Raise err, c')"
  shows "item_yield_size st = 0" "task_state c' = Task_complete" "events c' = events c"
  using assms
  by (cases mode;
      auto simp: CommitBase_on_succeeded_def written_item_ids_batched_def Let_def
           split: res.splits prod.splits if_splits)+

lemma on_succeeded_returns:
  "item_yield_size st \<noteq> 0 \<Longrightarrow> \<exists>c'. on_succeeded mode st e c = (Ok (), c')"
  by (cases mode)
     (auto simp: CommitBase_on_succeeded_def written_item_ids_batched_def Let_def
        split: res.splits prod.splits)

section \<open>The readiness checks\<close>

lemma CommitBase_init_fields [simp]:
  "task_state (CommitBase_init c) = task_state c"
  "task_deadline (CommitBase_init c) = task_deadline c"
  "publish_state (CommitBase_init c) = publish_state c"
  "publish_ident (CommitBase_init c) = publish_ident c"
  "db_items (CommitBase_init c) = db_items c"
  "events (CommitBase_init c) = events c"
  "written_item_ids (CommitBase_init c) = []"
  "flush_paths (CommitBase_init c) = []"
  by (simp_all add: CommitBase_init_def)

lemma new_events_append [simp]: "events c' = events c @ L \<Longrightarrow> new_events c c' = L"
  by (simp add: new_events_def)

lemma new_events_same [simp]: "events c' = events c \<Longrightarrow> new_events c c' = []"
  by (simp add: new_events_def)

text \<open>
  C4, as the code has it. A commit whose task is past its deadline returns to the broker
  without any call of \<^verbatim>\<open>write_batch\<close>. When the task is not already complete or failed,
  it is marked failed and the session is committed, and that is all the run does; a task
  that is already complete or failed is left as it is, and nothing is committed.
\<close>

theorem deadline_exceeded:
  assumes "commit_class commit_mode = Ok mode" "get_environment e env_name = Ok ()"
    and "task_deadline c = Some deadline" "deadline < utcnow e"
  shows "fst (commit env_name commit_mode st e c) = Ok ()
    \<and> list_all (\<lambda>ev. \<not> is_write ev) (new_events c (snd (commit env_name commit_mode st e c)))
    \<and> (task_state c \<noteq> Task_complete \<and> task_state c \<noteq> Task_failed \<longrightarrow>
         snd (commit env_name commit_mode st e c) = db_commit (on_failed mode (CommitBase_init c))
         \<and> task_state (snd (commit env_name commit_mode st e c)) = Task_failed
         \<and> new_events c (snd (commit env_name commit_mode st e c))
             = [DBCommit Task_failed (publish_state (snd (commit env_name commit_mode st e c)))])
    \<and> (task_state c = Task_complete \<or> task_state c = Task_failed \<longrightarrow>
         snd (commit env_name commit_mode st e c) = CommitBase_init c)"
proof (cases "task_state c = Task_complete \<or> task_state c = Task_failed")
  case True
  then have "commit env_name commit_mode st e c = (Ok (), CommitBase_init c)"
    using assms by (auto simp: commit_def should_write_def task_ready_def)
  with True show ?thesis by auto
next
  case False
  then have "commit env_name commit_mode st e c
               = (Ok (), db_commit (on_failed mode (CommitBase_init c)))"
    using assms by (simp add: commit_def should_write_def task_ready_def)
  with False show ?thesis by simp
qed

theorem deadline_exceeded_witness:
  "commit_class None = Ok phase2 \<and> get_environment sample_env ''test'' = Ok ()
   \<and> task_deadline (sample_commit\<lparr>task_deadline := Some 50\<rparr>) = Some 50
   \<and> 50 < utcnow sample_env
   \<and> task_state (sample_commit\<lparr>task_deadline := Some 50\<rparr>) = Task_not_started
   \<and> commit ''test'' None sample_settings sample_env (sample_commit\<lparr>task_deadline := Some 50\<rparr>)
       = (Ok (), (sample_commit\<lparr>task_deadline := Some 50\<rparr>)
                   \<lparr>task_state := Task_failed, publish_state := Publish_failed,
                    events := [DBCommit Task_failed Publish_failed]\<rparr>)"
proof -
  let ?c = "sample_commit\<lparr>task_deadline := Some 50\<rparr>"
  have h: "commit_class None = Ok phase2" "get_environment sample_env ''test'' = Ok ()"
    "task_deadline ?c = Some 50" "50 < utcnow sample_env"
    by (simp_all add: commit_class_def get_environment_def sample_env_def)
  have s: "task_state ?c = Task_not_started" by (simp add: sample_commit_def)
  from deadline_exceeded[OF h, of sample_settings] s
  have "commit ''test'' None sample_settings sample_env ?c
          = (Ok (), db_commit (on_failed phase2 (CommitBase_init ?c)))"
    by (simp add: prod_eq_iff)
  with h s show ?thesis by (simp add: CommitBase_init_def db_commit_def sample_commit_def)
qed

text \<open>The claim C4 as it is stated fails for a task that is already complete: past its
  deadline, it stays complete and the session is not committed.\<close>

theorem deadline_exceeded_counterexample:
  "task_deadline (sample_commit\<lparr>task_state := Task_complete, task_deadline := Some 50\<rparr>) = Some 50
   \<and> 50 < utcnow sample_env
   \<and> commit ''test'' None sample_settings sample_env
        (sample_commit\<lparr>task_state := Task_complete, task_deadline := Some 50\<rparr>)
       = (Ok (), sample_commit\<lparr>task_state := Task_complete, task_deadline := Some 50\<rparr>)
   \<and> task_state (snd (commit ''test'' None sample_settings sample_env
        (sample_commit\<lparr>task_state := Task_complete, task_deadline := Some 50\<rparr>))) \<noteq> Task_failed
   \<and> events (snd (commit ''test'' None sample_settings sample_env
        (sample_commit\<lparr>task_state := Task_complete, task_deadline := Some 50\<rparr>))) = []"
  by (simp add: commit_def commit_class_def get_environment_def should_write_def task_ready_def
        CommitBase_init_def sample_env_def sample_commit_def)

text \<open>
  C10, as the code has it. In a phase 2 commit whose task is neither complete nor failed
  and is past its deadline, \<^verbatim>\<open>task_ready\<close> calls \<^verbatim>\<open>on_failed\<close> of \<^verbatim>\<open>CommitPhase2\<close>: the
  task and the publish are both marked failed, the session is committed, and no write has
  been attempted; \<^verbatim>\<open>should_write\<close> answers false with that state.
\<close>

theorem phase2_deadline_fails_publish:
  assumes "task_state c \<noteq> Task_complete" "task_state c \<noteq> Task_failed"
    and "task_deadline c = Some deadline" "deadline < utcnow e"
  shows "task_ready phase2 e c
           = (False, c\<lparr>task_state := Task_failed, publish_state := Publish_failed,
                       events := events c @ [DBCommit Task_failed Publish_failed]\<rparr>)
    \<and> should_write phase2 st e c = (Ok False, snd (task_ready phase2 e c))
    \<and> snd (task_ready phase2 e c) = db_commit (on_failed phase2 c)"
  using assms by (simp add: task_ready_def should_write_def db_commit_def)

theorem phase2_deadline_fails_publish_witness:
  "task_state sample_commit = Task_not_started
   \<and> task_deadline sample_commit = Some 200
   \<and> 200 < utcnow (sample_env\<lparr>utcnow := 300\<rparr>)
   \<and> task_ready phase2 (sample_env\<lparr>utcnow := 300\<rparr>) sample_commit
         = (False, sample_commit\<lparr>task_state := Task_failed, publish_state := Publish_failed,
                                  events := [DBCommit Task_failed Publish_failed]\<rparr>)
   \<and> should_write phase2 sample_settings (sample_env\<lparr>utcnow := 300\<rparr>) sample_commit
         = (Ok False, sample_commit\<lparr>task_state := Task_failed, publish_state := Publish_failed,
                                     events := [DBCommit Task_failed Publish_failed]\<rparr>)"
proof -
  have h: "task_state sample_commit \<noteq> Task_complete" "task_state sample_commit \<noteq> Task_failed"
    "task_deadline sample_commit = Some 200" "200 < utcnow (sample_env\<lparr>utcnow := 300\<rparr>)"
    by (simp_all add: sample_commit_def)
  have ev: "events sample_commit = []" by (simp add: sample_commit_def)
  from phase2_deadline_fails_publish[OF h, of sample_settings] h show ?thesis
    by (simp add: ev) (simp add: sample_commit_def)
qed

text \<open>The claim C10 as it is stated fails for a task that has already failed while its
  publish is still committing: past the deadline, the publish is left as it is.\<close>

theorem phase2_deadline_counterexample:
  "task_deadline (sample_commit\<lparr>task_state := Task_failed\<rparr>) = Some 200
   \<and> 200 < utcnow (sample_env\<lparr>utcnow := 300\<rparr>)
   \<and> task_ready phase2 (sample_env\<lparr>utcnow := 300\<rparr>) (sample_commit\<lparr>task_state := Task_failed\<rparr>)
        = (False, sample_commit\<lparr>task_state := Task_failed\<rparr>)
   \<and> publish_state (snd (commit ''test'' (Some ''phase2'') sample_settings
        (sample_env\<lparr>utcnow := 300\<rparr>) (sample_commit\<lparr>task_state := Task_failed\<rparr>)))
        = Publish_committing"
  by (simp add: commit_def commit_class_def get_environment_def should_write_def task_ready_def
        CommitBase_init_def sample_env_def sample_commit_def)

text \<open>
  C9, as the code has it. For a task that is neither complete nor failed and not past its
  deadline, a publish in an allowed state that has no items, and a chunk size other than
  zero, \<^verbatim>\<open>should_write\<close> calls \<^verbatim>\<open>on_succeeded\<close>, commits the session and answers false:
  the task is complete, the publish of a phase 2 commit is committed, and the only event
  of the run is that commit of the session: no write and no flush of the cache.
\<close>

theorem empty_commit_succeeds:
  assumes "task_state c \<noteq> Task_complete" "task_state c \<noteq> Task_failed"
    and "case task_deadline c of None \<Rightarrow> True | Some deadline \<Rightarrow> utcnow e \<le> deadline"
    and "publish_ready mode c" "\<not> has_items c" "item_yield_size st \<noteq> 0"
  shows "\<exists>c'. on_succeeded mode st e c = (Ok (), c')
    \<and> should_write mode st e c = (Ok False, db_commit c')
    \<and> task_state (db_commit c') = Task_complete
    \<and> publish_state (db_commit c')
         = (case mode of phase1 \<Rightarrow> publish_state c | phase2 \<Rightarrow> Publish_committed)
    \<and> events (db_commit c') = events c @ [DBCommit Task_complete (publish_state (db_commit c'))]"
proof -
  from on_succeeded_returns[OF assms(6)]
  obtain c' where s: "on_succeeded mode st e c = (Ok (), c')" by blast
  have r: "task_ready mode e c = (True, c)"
    using assms(1-3) by (auto simp: task_ready_def split: option.splits)
  have w: "should_write mode st e c = (Ok False, db_commit c')"
    using assms(4,5) by (simp add: should_write_def r s)
  from s w on_succeeded_Ok[OF s] show ?thesis by simp
qed

theorem empty_commit_succeeds_witness:
  "task_state (sample_commit\<lparr>db_items := []\<rparr>) = Task_not_started
   \<and> task_deadline (sample_commit\<lparr>db_items := []\<rparr>) = Some 200 \<and> utcnow sample_env \<le> 200
   \<and> publish_ready phase2 (sample_commit\<lparr>db_items := []\<rparr>)
   \<and> \<not> has_items (sample_commit\<lparr>db_items := []\<rparr>)
   \<and> item_yield_size sample_settings \<noteq> 0
   \<and> should_write phase2 sample_settings sample_env (sample_commit\<lparr>db_items := []\<rparr>)
       = (Ok False, sample_commit\<lparr>task_state := Task_complete, publish_state := Publish_committed,
                                   db_items := [],
                                   events := [DBCommit Task_complete Publish_committed]\<rparr>)"
proof -
  let ?c = "sample_commit\<lparr>db_items := []\<rparr>"
  have h: "task_state ?c \<noteq> Task_complete" "task_state ?c \<noteq> Task_failed"
    "case task_deadline ?c of None \<Rightarrow> True | Some deadline \<Rightarrow> utcnow sample_env \<le> deadline"
    "publish_ready phase2 ?c" "\<not> has_items ?c" "item_yield_size sample_settings \<noteq> 0"
    by (simp_all add: sample_commit_def sample_env_def sample_settings_def publish_ready_def
          has_items_def item_count_def)
  have o: "on_succeeded phase2 sample_settings sample_env ?c
             = (Ok (), sample_commit\<lparr>task_state := Task_complete,
                  publish_state := Publish_committed, db_items := []\<rparr>)"
    by (simp add: CommitBase_on_succeeded_def written_item_ids_batched_def sample_settings_def
          sample_commit_def sample_env_def chunks.simps)
  from empty_commit_succeeds[OF h] o
  have "should_write phase2 sample_settings sample_env ?c
          = (Ok False, db_commit (sample_commit\<lparr>task_state := Task_complete,
                  publish_state := Publish_committed, db_items := []\<rparr>))"
    by simp
  moreover have "task_state ?c = Task_not_started" "task_deadline ?c = Some 200"
    "utcnow sample_env \<le> 200"
    by (simp_all add: sample_commit_def sample_env_def)
  ultimately show ?thesis using h by (simp add: db_commit_def sample_commit_def)
qed

text \<open>The claim C9 as it is stated fails for a task that has already failed: with no items,
  a deadline still to come and a publish in an allowed state, the commit returns and the
  task stays failed, the publish committing.\<close>

theorem empty_commit_counterexample:
  "\<not> has_items (sample_commit\<lparr>task_state := Task_failed, db_items := []\<rparr>)
   \<and> task_deadline (sample_commit\<lparr>task_state := Task_failed, db_items := []\<rparr>) = Some 200
   \<and> utcnow sample_env \<le> 200
   \<and> publish_ready phase2 (sample_commit\<lparr>task_state := Task_failed, db_items := []\<rparr>)
   \<and> should_write phase2 sample_settings sample_env
        (sample_commit\<lparr>task_state := Task_failed, db_items := []\<rparr>)
       = (Ok False, sample_commit\<lparr>task_state := Task_failed, db_items := []\<rparr>)
   \<and> task_state (sample_commit\<lparr>task_state := Task_failed, db_items := []\<rparr>) \<noteq> Task_complete
   \<and> publish_state (sample_commit\<lparr>task_state := Task_failed, db_items := []\<rparr>)
        \<noteq> Publish_committed"
  by (simp add: should_write_def task_ready_def publish_ready_def has_items_def item_count_def
        sample_env_def sample_commit_def)

end
